theory Spec2Isabelle
  imports
    Main
    "HOL-Library.List_Lexorder"
    "HOL-Library.Char_ord"
    "HOL-Library.Sublist"
    "HOL-Library.Log_Nat"
begin

section \<open>The vector space model notebook\<close>

text \<open>
  A shallow embedding of the code cells of \<^verbatim>\<open>jan28-lsi/jan28-vector-spaces.ipynb\<close>
  (Python 2 with numpy): \<^verbatim>\<open>build_lexicon\<close>, \<^verbatim>\<open>build_inverted_index\<close>,
  \<^verbatim>\<open>build_termdoc_matrix\<close>, \<^verbatim>\<open>distance\<close>, \<^verbatim>\<open>build_vector\<close>,
  \<^verbatim>\<open>get_postings\<close> and \<^verbatim>\<open>search\<close>.

  A Python 2 \<^verbatim>\<open>str\<close> is a byte string: \<^typ>\<open>string\<close>, a list of 8-bit characters.
  Strings are ordered byte by byte (\<^verbatim>\<open>List_Lexorder\<close> over \<^verbatim>\<open>Char_ord\<close>), which is
  the order of Python 2 strings and of numpy's string arrays.

  numpy keeps the strings of an array in cells of one width, a shorter string filled up
  with NUL bytes, and drops the NUL bytes at the end of a cell when it reads one back:
  a string that went through an array has lost the NUL bytes at its end. An array of
  strings is modelled as the list of the strings read from its cells. An element read
  from an array is a \<^verbatim>\<open>numpy.string_\<close>, a subclass of \<^verbatim>\<open>str\<close> that compares, hashes
  and searches as a \<^verbatim>\<open>str\<close> does.
\<close>

subsection \<open>Tokens\<close>

text \<open>
  \<^verbatim>\<open>d.split()\<close> without a separator: the maximal runs of characters that are not
  white space; for a byte string the white space is tab, line feed, vertical tab, form
  feed, carriage return and space.
\<close>

definition is_space :: "char \<Rightarrow> bool" where
  "is_space c = (c \<in> set [CHR 0x09, CHR 0x0A, CHR 0x0B, CHR 0x0C, CHR 0x0D, CHR 0x20])"

function str_split :: "string \<Rightarrow> string list" where
  "str_split s =
     (case dropWhile is_space s of
        [] \<Rightarrow> []
      | c # cs \<Rightarrow> (c # takeWhile (\<lambda>x. \<not> is_space x) cs)
                   # str_split (dropWhile (\<lambda>x. \<not> is_space x) cs))"
  by pat_completeness auto
termination
proof (relation "measure length", goal_cases)
  case 1
  show ?case by simp
next
  case (2 s c cs)
  have "length (dropWhile (\<lambda>x. \<not> is_space x) cs) \<le> length cs"
    by (rule length_dropWhile_le)
  moreover have "length (dropWhile is_space s) \<le> length s"
    by (rule length_dropWhile_le)
  ultimately show ?case using 2 by simp
qed

declare str_split.simps [simp del]

subsection \<open>The lexicon\<close>

text \<open>
  \<^verbatim>\<open>
  def build_lexicon(docs):
      lexicon = []
      for d in docs:
          for t in d.split():
              if t not in lexicon:
                  lexicon.append(t)
      return sort(lexicon)
  \<close>
  \<open>add_terms\<close> is the inner loop and \<open>scan_docs\<close> the outer one, on a Python list.
  \<^verbatim>\<open>sort\<close> is numpy's (the notebook prints the type of the lexicon,
  \<^verbatim>\<open>numpy.ndarray\<close>): it copies the list into an array of strings and sorts the cells.
  \<open>strip_nul\<close> is a string as it is read from a cell, and \<open>sort_np\<close> the sorted array.
  Two cells compare as the strings read from them do, since the NUL byte is the least
  byte.
\<close>

definition strip_nul :: "string \<Rightarrow> string" where
  "strip_nul s = rev (dropWhile (\<lambda>c. c = CHR 0x00) (rev s))"

definition sort_np :: "string list \<Rightarrow> string list" where
  "sort_np xs = sort (map strip_nul xs)"

fun add_terms :: "string list \<Rightarrow> string list \<Rightarrow> string list" where
  "add_terms lexicon [] = lexicon"
| "add_terms lexicon (t # ts) =
     add_terms (if t \<notin> set lexicon then lexicon @ [t] else lexicon) ts"

fun scan_docs :: "string list \<Rightarrow> string list \<Rightarrow> string list" where
  "scan_docs lexicon [] = lexicon"
| "scan_docs lexicon (d # docs) = scan_docs (add_terms lexicon (str_split d)) docs"

definition build_lexicon :: "string list \<Rightarrow> string list" where
  "build_lexicon docs = sort_np (scan_docs [] docs)"

subsection \<open>Errors\<close>

text \<open>
  The exceptions the code can raise: \<^verbatim>\<open>ValueError\<close> (\<^verbatim>\<open>list.index\<close> of a value that
  is not in the list, \<^verbatim>\<open>np.dot\<close> of vectors of different lengths), \<^verbatim>\<open>IndexError\<close>
  (a matrix index out of range) and \<^verbatim>\<open>TypeError\<close> (\<^verbatim>\<open>set.intersection\<close> without an
  argument). A function that can raise returns \<open>error + 'a\<close>, the error on the left.
\<close>

datatype error = ValueError | IndexError | TypeError

text \<open>\<^verbatim>\<open>xs.index(x)\<close>: the first position of \<open>x\<close>.\<close>

fun list_index :: "'a list \<Rightarrow> 'a \<Rightarrow> error + nat" where
  "list_index [] x = Inl ValueError"
| "list_index (y # ys) x =
     (if y = x then Inr 0
      else (case list_index ys x of Inl e \<Rightarrow> Inl e | Inr i \<Rightarrow> Inr (Suc i)))"

subsection \<open>The inverted index\<close>

text \<open>
  \<^verbatim>\<open>
  def build_inverted_index(documents):
      index = defaultdict(list)
      lexicon = build_lexicon(documents)
      for term in lexicon:
          index[term] = []
          for d in documents:
              if term in d.split():
                  index[term].append(documents.index(d))
      return index
  \<close>
  The dictionary is a map from terms to postings lists. \<open>postings_loop\<close> is the inner
  loop, with the list \<^verbatim>\<open>index[term]\<close> as accumulator, and \<open>index_loop\<close> the outer one.
\<close>

type_synonym index = "string \<rightharpoonup> nat list"

fun postings_loop :: "string list \<Rightarrow> string \<Rightarrow> nat list \<Rightarrow> string list \<Rightarrow> error + nat list" where
  "postings_loop documents term acc [] = Inr acc"
| "postings_loop documents term acc (d # ds) =
     (if term \<in> set (str_split d)
      then (case list_index documents d of
              Inl e \<Rightarrow> Inl e
            | Inr i \<Rightarrow> postings_loop documents term (acc @ [i]) ds)
      else postings_loop documents term acc ds)"

fun index_loop :: "string list \<Rightarrow> index \<Rightarrow> string list \<Rightarrow> error + index" where
  "index_loop documents index [] = Inr index"
| "index_loop documents index (term # terms) =
     (case postings_loop documents term [] documents of
        Inl e \<Rightarrow> Inl e
      | Inr ps \<Rightarrow> index_loop documents (index(term \<mapsto> ps)) terms)"

definition build_inverted_index :: "string list \<Rightarrow> error + index" where
  "build_inverted_index documents = index_loop documents Map.empty (build_lexicon documents)"

subsection \<open>Double-precision arithmetic\<close>

text \<open>
  numpy computes with IEEE 754 doubles. A finite double is an integer significand times
  a power of two: \<open>Dbl m e\<close> is the number \<open>m * 2 ^ e\<close>. Each operation returns the
  double nearest to the exact result, a number of at most 53 significant bits, and the
  one with the even significand when two are equally near. The exponent is not bounded
  in the model (no overflow to infinity, no underflow) and a zero has no sign.
\<close>

datatype double = Dbl int int

abbreviation fl_zero :: double where
  "fl_zero \<equiv> Dbl 0 0"

abbreviation fl_one :: double where
  "fl_one \<equiv> Dbl 1 0"

text \<open>
  \<open>strip\<close> writes a number with an odd significand (zero as \<open>Dbl 0 0\<close>), so that equal
  results are written alike.
\<close>

function strip :: "int \<Rightarrow> int \<Rightarrow> double" where
  "strip m e = (if m = 0 then Dbl 0 0 else if even m then strip (m div 2) (e + 1) else Dbl m e)"
  by pat_completeness auto
termination
  by (relation "measure (\<lambda>(m, e). nat \<bar>m\<bar>)") auto

declare strip.simps [simp del]

text \<open>
  \<open>nearest n d\<close> is the integer nearest to the fraction \<open>n / d\<close> (\<open>0 \<le> n\<close>, \<open>0 < d\<close>), the
  even one in a tie. The fraction \<open>n / d\<close> times \<open>2 ^ s\<close> is
  \<open>scale_num n s / scale_den d s\<close>.
\<close>

definition nearest_qr :: "int \<Rightarrow> int \<Rightarrow> int \<Rightarrow> int" where
  "nearest_qr q r d =
     (if 2 * r < d then q else if d < 2 * r then q + 1 else if even q then q else q + 1)"

definition nearest :: "int \<Rightarrow> int \<Rightarrow> int" where
  "nearest n d = nearest_qr (n div d) (n mod d) d"

definition scale_num :: "int \<Rightarrow> int \<Rightarrow> int" where
  "scale_num n s = (if 0 \<le> s then n * 2 ^ nat s else n)"

definition scale_den :: "int \<Rightarrow> int \<Rightarrow> int" where
  "scale_den d s = (if 0 \<le> s then d else d * 2 ^ nat (- s))"

text \<open>
  \<open>round_pos n d e\<close> is the double nearest to \<open>n / d * 2 ^ e\<close>, for positive \<open>n\<close> and \<open>d\<close>.
  With \<open>s = 53 + bitlen d - bitlen n\<close> the fraction times \<open>2 ^ s\<close> lies between \<open>2 ^ 52\<close>
  and \<open>2 ^ 54\<close>; \<open>adjust\<close> takes one off \<open>s\<close> when it has reached \<open>2 ^ 53\<close>, so that the
  scaled fraction has 53 bits before the point, and \<open>round_at\<close> rounds it to an integer.
  \<open>round_ratio\<close> is the same for a numerator of any sign.
\<close>

definition adjust :: "int \<Rightarrow> int \<Rightarrow> int \<Rightarrow> int" where
  "adjust n d s = (if 2 ^ 53 * scale_den d s \<le> scale_num n s then s - 1 else s)"

definition round_at :: "int \<Rightarrow> int \<Rightarrow> int \<Rightarrow> int \<Rightarrow> double" where
  "round_at n d e s = strip (nearest (scale_num n s) (scale_den d s)) (e - s)"

definition round_pos :: "int \<Rightarrow> int \<Rightarrow> int \<Rightarrow> double" where
  "round_pos n d e = round_at n d e (adjust n d (53 + bitlen d - bitlen n))"

fun fl_neg :: "double \<Rightarrow> double" where
  "fl_neg (Dbl m e) = Dbl (- m) e"

definition round_ratio :: "int \<Rightarrow> int \<Rightarrow> int \<Rightarrow> double" where
  "round_ratio n d e =
     (if n = 0 then Dbl 0 0
      else if 0 < n then round_pos n d e
      else fl_neg (round_pos (- n) d e))"

fun fl_mul :: "double \<Rightarrow> double \<Rightarrow> double" where
  "fl_mul (Dbl m1 e1) (Dbl m2 e2) = round_ratio (m1 * m2) 1 (e1 + e2)"

fun fl_add :: "double \<Rightarrow> double \<Rightarrow> double" where
  "fl_add (Dbl m1 e1) (Dbl m2 e2) =
     round_ratio (m1 * 2 ^ nat (e1 - min e1 e2) + m2 * 2 ^ nat (e2 - min e1 e2)) 1 (min e1 e2)"

text \<open>
  The square root of a double is the double nearest to the exact root. \<open>isqrt n\<close> is
  the integer part of the root of \<open>n\<close>. \<open>sqrt_pos m e\<close>, for \<open>0 < m\<close> and even \<open>e\<close>, scales
  \<open>m\<close> by an even power of two to a number of 105 or 106 bits, whose root has 53 bits
  before the point, and \<open>sqrt_round\<close> rounds that root \<open>r\<close> up when the scaled number
  \<open>a / b\<close> is above the square of \<open>r + 1 / 2\<close>. The argument is a sum of squares here,
  never negative.
\<close>

definition isqrt_step :: "int \<Rightarrow> int \<Rightarrow> int" where
  "isqrt_step n r = (if (r + 1) * (r + 1) \<le> n then r + 1 else r)"

function isqrt :: "int \<Rightarrow> int" where
  "isqrt n = (if n \<le> 0 then 0 else isqrt_step n (2 * isqrt (n div 4)))"
  by pat_completeness auto
termination
  by (relation "measure nat") auto

declare isqrt.simps [simp del]

definition sqrt_round :: "int \<Rightarrow> int \<Rightarrow> int \<Rightarrow> int" where
  "sqrt_round a b r =
     (if (2 * r + 1) * (2 * r + 1) * b < 4 * a then r + 1
      else if 4 * a < (2 * r + 1) * (2 * r + 1) * b then r
      else if even r then r else r + 1)"

definition sqrt_at :: "int \<Rightarrow> int \<Rightarrow> int \<Rightarrow> double" where
  "sqrt_at m e s =
     strip (sqrt_round (scale_num m s) (scale_den 1 s) (isqrt (scale_num m s div scale_den 1 s)))
       ((e - s) div 2)"

definition sqrt_pos :: "int \<Rightarrow> int \<Rightarrow> double" where
  "sqrt_pos m e = sqrt_at m e (106 - bitlen m - (106 - bitlen m) mod 2)"

fun fl_sqrt :: "double \<Rightarrow> double" where
  "fl_sqrt (Dbl m e) =
     (if m \<le> 0 then Dbl 0 0
      else if even e then sqrt_pos m e else sqrt_pos (2 * m) (e - 1))"

text \<open>
  The quotient of two numpy doubles. Division by zero raises nothing (numpy prints a
  \<^verbatim>\<open>RuntimeWarning\<close> and goes on): the result is the IEEE value, not-a-number for
  \<^verbatim>\<open>0.0 / 0.0\<close> and an infinity otherwise.
\<close>

datatype npfloat = Fin double | PInf | NInf | NaN

fun fl_div :: "double \<Rightarrow> double \<Rightarrow> npfloat" where
  "fl_div (Dbl m1 e1) (Dbl m2 e2) =
     (if m2 = 0 then (if m1 = 0 then NaN else if 0 < m1 then PInf else NInf)
      else if 0 < m2 then Fin (round_ratio m1 m2 (e1 - e2))
      else Fin (round_ratio (- m1) (- m2) (e1 - e2)))"

text \<open>Python's \<^verbatim>\<open><\<close> on floats: every comparison with not-a-number is false.\<close>

fun dbl_lt :: "double \<Rightarrow> double \<Rightarrow> bool" where
  "dbl_lt (Dbl m1 e1) (Dbl m2 e2) =
     (m1 * 2 ^ nat (e1 - min e1 e2) < m2 * 2 ^ nat (e2 - min e1 e2))"

fun fl_lt :: "npfloat \<Rightarrow> npfloat \<Rightarrow> bool" where
  "fl_lt NaN y = False"
| "fl_lt x NaN = False"
| "fl_lt (Fin a) (Fin b) = dbl_lt a b"
| "fl_lt (Fin a) PInf = True"
| "fl_lt NInf (Fin b) = True"
| "fl_lt NInf PInf = True"
| "fl_lt x y = False"

subsection \<open>The term-document matrix\<close>

text \<open>
  A two-dimensional numpy array of doubles: its shape and its rows. An assignment or a
  read outside the shape raises \<^verbatim>\<open>IndexError\<close>.
\<close>

record matrix =
  nrows :: nat
  ncols :: nat
  cells :: "double list list"

definition zeros :: "nat \<Rightarrow> nat \<Rightarrow> matrix" where
  "zeros r c = \<lparr>nrows = r, ncols = c, cells = replicate r (replicate c fl_zero)\<rparr>"

definition set_cell :: "matrix \<Rightarrow> nat \<Rightarrow> nat \<Rightarrow> double \<Rightarrow> error + matrix" where
  "set_cell m i j v =
     (if i < nrows m \<and> j < ncols m
      then Inr (m\<lparr>cells := (cells m)[i := (cells m ! i)[j := v]]\<rparr>)
      else Inl IndexError)"

definition column :: "matrix \<Rightarrow> nat \<Rightarrow> error + double list" where
  "column m j = (if j < ncols m then Inr (map (\<lambda>row. row ! j) (cells m)) else Inl IndexError)"

text \<open>
  \<^verbatim>\<open>
  def build_termdoc_matrix(documents, lexicon=None):
      if lexicon == None:
          lexicon = build_lexicon(documents)
      nrows = len(lexicon)
      ncols = len(documents)
      termdoc_matrix = np.zeros((nrows, ncols))
      for term in lexicon:
          for d in documents:
              term_idx = list(lexicon).index(term)
              doc_idx = documents.index(d)
              if term in d:
                  termdoc_matrix[term_idx, doc_idx] = 1
      return termdoc_matrix
  \<close>
  The optional argument is \<open>None\<close> or the lexicon. (\<^verbatim>\<open>lexicon == None\<close> is the test of
  the code; with the numpy of the notebook's Python 2 the comparison of an array with
  \<^verbatim>\<open>None\<close> is false, as the code expects.) Here \<^verbatim>\<open>d\<close> is the document's text, so
  that \<^verbatim>\<open>term in d\<close> is the substring test of Python strings: \<^const>\<open>sublist\<close>. \<open>row_loop\<close> is the inner loop and \<open>matrix_loop\<close> the
  outer one.
\<close>

fun row_loop :: "string list \<Rightarrow> string list \<Rightarrow> string \<Rightarrow> matrix \<Rightarrow> string list \<Rightarrow> error + matrix" where
  "row_loop documents lexicon term m [] = Inr m"
| "row_loop documents lexicon term m (d # ds) =
     (case list_index lexicon term of
        Inl e \<Rightarrow> Inl e
      | Inr term_idx \<Rightarrow>
          (case list_index documents d of
             Inl e \<Rightarrow> Inl e
           | Inr doc_idx \<Rightarrow>
               if sublist term d
               then (case set_cell m term_idx doc_idx fl_one of
                       Inl e \<Rightarrow> Inl e
                     | Inr m' \<Rightarrow> row_loop documents lexicon term m' ds)
               else row_loop documents lexicon term m ds))"

fun matrix_loop :: "string list \<Rightarrow> string list \<Rightarrow> matrix \<Rightarrow> string list \<Rightarrow> error + matrix" where
  "matrix_loop documents lexicon m [] = Inr m"
| "matrix_loop documents lexicon m (term # terms) =
     (case row_loop documents lexicon term m documents of
        Inl e \<Rightarrow> Inl e
      | Inr m' \<Rightarrow> matrix_loop documents lexicon m' terms)"

definition build_termdoc_matrix :: "string list \<Rightarrow> string list option \<Rightarrow> error + matrix" where
  "build_termdoc_matrix documents lexicon_arg =
     (let lexicon = (case lexicon_arg of None \<Rightarrow> build_lexicon documents | Some l \<Rightarrow> l)
      in matrix_loop documents lexicon (zeros (length lexicon) (length documents)) lexicon)"

subsection \<open>Cosine similarity\<close>

text \<open>
  \<^verbatim>\<open>
  def distance(doc1, doc2):
      return np.dot(doc1, doc2) / (np.linalg.norm(doc1) * np.linalg.norm(doc2))
  \<close>
  \<^verbatim>\<open>np.dot\<close> of two vectors raises \<^verbatim>\<open>ValueError\<close> when their lengths differ, and is
  otherwise the sum of the products, here accumulated from left to right (on vectors of
  zeros and ones, which are all this program builds, every partial sum is a small
  integer and exact in any order). \<^verbatim>\<open>np.linalg.norm\<close> of a vector is the square root
  of its product with itself.
\<close>

definition dot_sum :: "double list \<Rightarrow> double list \<Rightarrow> double" where
  "dot_sum v w = foldl (\<lambda>acc (x, y). fl_add acc (fl_mul x y)) fl_zero (zip v w)"

definition dot :: "double list \<Rightarrow> double list \<Rightarrow> error + double" where
  "dot v w = (if length v \<noteq> length w then Inl ValueError else Inr (dot_sum v w))"

definition norm :: "double list \<Rightarrow> double" where
  "norm v = fl_sqrt (dot_sum v v)"

definition distance :: "double list \<Rightarrow> double list \<Rightarrow> error + npfloat" where
  "distance doc1 doc2 =
     (case dot doc1 doc2 of
        Inl e \<Rightarrow> Inl e
      | Inr d \<Rightarrow> Inr (fl_div d (fl_mul (norm doc1) (norm doc2))))"

subsection \<open>The query vector\<close>

text \<open>
  \<^verbatim>\<open>
  def build_vector(query, lexicon):
      vec = np.zeros(len(lexicon))
      parts = query.split()
      for part in parts:
          vec[np.where(lexicon == part)] = 1
      return vec
  \<close>
  \<^verbatim>\<open>lexicon == part\<close> compares the array of strings with the string cell by cell: the
  string is filled up with NUL bytes as a cell is, so that two strings are equal there
  when they are equal up to NUL bytes at their ends. \<open>mark\<close> is the assignment of 1 at
  the positions that are equal.
\<close>

definition mark :: "string list \<Rightarrow> double list \<Rightarrow> string \<Rightarrow> double list" where
  "mark lexicon vec part =
     map (\<lambda>(t, v). if strip_nul t = strip_nul part then fl_one else v) (zip lexicon vec)"

fun mark_parts :: "string list \<Rightarrow> double list \<Rightarrow> string list \<Rightarrow> double list" where
  "mark_parts lexicon vec [] = vec"
| "mark_parts lexicon vec (part # parts) = mark_parts lexicon (mark lexicon vec part) parts"

definition build_vector :: "string \<Rightarrow> string list \<Rightarrow> double list" where
  "build_vector query lexicon =
     mark_parts lexicon (replicate (length lexicon) fl_zero) (str_split query)"

subsection \<open>Postings of a query\<close>

text \<open>
  \<^verbatim>\<open>
  def get_postings(query, docs, index = None):
      postings = []
      query_parts = query.split()
      if query_parts == []:
          return set()
      if index == None:
          index = build_inverted_index(docs)
      individual_postings = [index[part] for part in query_parts]
      return set.intersection(*map(set, individual_postings))
  \<close>
  The index is a \<^verbatim>\<open>defaultdict(list)\<close>: reading \<^verbatim>\<open>index[part]\<close> for a key that is
  absent stores an empty list under that key and returns it. So the function has an
  effect on the index it is given, and the model returns the index after the call
  beside the set: \<open>None\<close> when the caller passed none (the index built inside the call
  is local). \<open>lookup_parts\<close> is the list comprehension. \<^verbatim>\<open>set.intersection\<close> is called
  with the sets as its arguments and raises \<^verbatim>\<open>TypeError\<close> when there is none.
\<close>

fun lookup_parts :: "index \<Rightarrow> string list \<Rightarrow> nat list list \<times> index" where
  "lookup_parts index [] = ([], index)"
| "lookup_parts index (part # parts) =
     (case index part of
        Some ps \<Rightarrow> (case lookup_parts index parts of (r, index') \<Rightarrow> (ps # r, index'))
      | None \<Rightarrow> (case lookup_parts (index(part \<mapsto> [])) parts of (r, index') \<Rightarrow> ([] # r, index')))"

fun set_intersection :: "nat set list \<Rightarrow> error + nat set" where
  "set_intersection [] = Inl TypeError"
| "set_intersection (s # ss) = Inr (foldl (\<inter>) s ss)"

definition get_postings :: "string \<Rightarrow> string list \<Rightarrow> index option \<Rightarrow> error + nat set \<times> index option" where
  "get_postings query docs index_arg =
     (let query_parts = str_split query
      in if query_parts = [] then Inr ({}, index_arg)
         else (case (case index_arg of None \<Rightarrow> build_inverted_index docs | Some i \<Rightarrow> Inr i) of
                 Inl e \<Rightarrow> Inl e
               | Inr index \<Rightarrow>
                   (case lookup_parts index query_parts of
                      (individual_postings, index') \<Rightarrow>
                        (case set_intersection (map set individual_postings) of
                           Inl e \<Rightarrow> Inl e
                         | Inr s \<Rightarrow> Inr (s, map_option (\<lambda>_. index') index_arg)))))"

subsection \<open>Ranked search\<close>

text \<open>
  \<^verbatim>\<open>
  def search(query, lexicon, index, tdmat):
      vec = build_vector(query, lexicon)
      candidates = get_hits(query, documents, index)
      for c in candidates:
          print distance(vec, tdmat[:, c])
      results = sorted(list(candidates), key=lambda w: distance(vec, tdmat[:, w]), reverse=True)
      return results
  \<close>
  \<^verbatim>\<open>documents\<close> is the global variable of the notebook; it is a parameter of the model.
\<close>

text \<open>
  Modelled from the spec: \<^verbatim>\<open>get_hits\<close>, which \<^verbatim>\<open>search\<close> calls with the query, the
  collection and the index, is defined in no cell of the notebook. The search of the
  spec tokenizes the query; a query without tokens has no candidates; otherwise the
  candidate set is the intersection, across the terms of the query, of the postings sets
  of the terms in the inverted index, the postings set of a term absent from the index
  being treated as empty. The index is a read-only snapshot there and the execution of a
  query a pure function of its inputs: the function returns the set and stores nothing.
\<close>

definition get_hits :: "string \<Rightarrow> string list \<Rightarrow> index \<Rightarrow> nat set" where
  "get_hits query documents index =
     (case map (\<lambda>part. case index part of None \<Rightarrow> {} | Some ps \<Rightarrow> set ps) (str_split query) of
        [] \<Rightarrow> {}
      | s # ss \<Rightarrow> foldl (\<inter>) s ss)"

text \<open>
  The loop and the sort key compute \<^verbatim>\<open>distance(vec, tdmat[:, c])\<close> for the candidates in
  the order of the iteration; the first exception ends the call.
\<close>

fun similarities :: "double list \<Rightarrow> matrix \<Rightarrow> nat list \<Rightarrow> error + npfloat list" where
  "similarities vec tdmat [] = Inr []"
| "similarities vec tdmat (c # cs) =
     (case column tdmat c of
        Inl e \<Rightarrow> Inl e
      | Inr col \<Rightarrow>
          (case distance vec col of
             Inl e \<Rightarrow> Inl e
           | Inr s \<Rightarrow>
               (case similarities vec tdmat cs of
                  Inl e \<Rightarrow> Inl e
                | Inr ss \<Rightarrow> Inr (s # ss))))"

text \<open>
  \<^verbatim>\<open>sorted(xs, key=k, reverse=True)\<close> computes the key of every element once and sorts
  by decreasing key; the sort is stable, and remains so with \<^verbatim>\<open>reverse=True\<close>: elements
  with equal keys keep their order. The keys are compared with \<^verbatim>\<open><\<close> only. Here it
  is an insertion sort on the elements paired with their keys. (When a key is
  not-a-number the comparisons do not order the keys, and what Python's sort returns
  depends on its algorithm; no theorem below is about such a call.)
\<close>

fun insort_desc :: "'a \<times> npfloat \<Rightarrow> ('a \<times> npfloat) list \<Rightarrow> ('a \<times> npfloat) list" where
  "insort_desc x [] = [x]"
| "insort_desc x (y # ys) =
     (if fl_lt (snd x) (snd y) then y # insort_desc x ys else x # y # ys)"

definition sorted_desc :: "('a \<times> npfloat) list \<Rightarrow> 'a list" where
  "sorted_desc xs = map fst (foldr insort_desc xs [])"

text \<open>
  Python does not fix the order in which a set is iterated (CPython's follows the
  slots of its hash table). The order is a parameter of the model, \<open>set_iter\<close>, which
  gives for a set the list of its members in the order of iteration; both the loop and
  \<^verbatim>\<open>list(candidates)\<close> go through the same set in that order. The result of the model
  is what the call prints and what it returns. The call assigns to none of its
  arguments: \<^verbatim>\<open>build_vector\<close> fills a new vector and the matrix is only read.
\<close>

record search_out =
  printed :: "npfloat list"
  results :: "nat list"

definition search ::
  "(nat set \<Rightarrow> nat list) \<Rightarrow> string list \<Rightarrow> string \<Rightarrow> string list \<Rightarrow> index \<Rightarrow> matrix
     \<Rightarrow> error + search_out" where
  "search set_iter documents query lexicon index tdmat =
     (let vec = build_vector query lexicon;
          candidates = get_hits query documents index
      in case similarities vec tdmat (set_iter candidates) of
           Inl e \<Rightarrow> Inl e
         | Inr sims \<Rightarrow>
             Inr \<lparr>printed = sims,
                  results = sorted_desc (zip (set_iter candidates) sims)\<rparr>)"

text \<open>
  A set iterates every member once, whatever the order.
\<close>

definition set_order_ok :: "(nat set \<Rightarrow> nat list) \<Rightarrow> bool" where
  "set_order_ok set_iter = (\<forall>s. finite s \<longrightarrow> set (set_iter s) = s \<and> distinct (set_iter s))"

text \<open>
  The reference corpus of the notebook.
\<close>

definition documents :: "string list" where
  "documents =
     [''The dog and cat ran very very fast'', ''The cat sat very still'',
      ''The gazelle ran fast'', ''very cat'', ''The lion was still'',
      ''very'', ''The dog ate the gazelle'']"

section \<open>Notions for the statements\<close>

text \<open>
  The notebook builds the three structures from the collection and then searches:
  \<^verbatim>\<open>
  lexicon = build_lexicon(documents)
  index = build_inverted_index(documents)
  td_matrix = build_termdoc_matrix(documents)
  search('cat very', lexicon, index, td_matrix)
  \<close>
  \<open>search_built\<close> is that sequence for a collection and a query, \<open>built_postings\<close> the
  call of \<^verbatim>\<open>get_postings\<close> with the index built from the collection, and
  \<open>built_similarity\<close> the key \<^verbatim>\<open>distance(vec, tdmat[:, c])\<close> of the document \<open>c\<close> with
  the lexicon and the matrix built from the collection.
\<close>

definition similarity :: "string \<Rightarrow> string list \<Rightarrow> matrix \<Rightarrow> nat \<Rightarrow> error + npfloat" where
  "similarity query lexicon tdmat c =
     (case column tdmat c of
        Inl e \<Rightarrow> Inl e
      | Inr col \<Rightarrow> distance (build_vector query lexicon) col)"

definition search_built :: "(nat set \<Rightarrow> nat list) \<Rightarrow> string list \<Rightarrow> string \<Rightarrow> error + search_out" where
  "search_built set_iter docs query =
     (case build_inverted_index docs of
        Inl e \<Rightarrow> Inl e
      | Inr index \<Rightarrow>
          (case build_termdoc_matrix docs None of
             Inl e \<Rightarrow> Inl e
           | Inr td_matrix \<Rightarrow> search set_iter docs query (build_lexicon docs) index td_matrix))"

definition built_postings :: "string list \<Rightarrow> string \<Rightarrow> error + nat set \<times> index option" where
  "built_postings docs query =
     (case build_inverted_index docs of
        Inl e \<Rightarrow> Inl e
      | Inr index \<Rightarrow> get_postings query docs (Some index))"

definition built_similarity :: "string list \<Rightarrow> string \<Rightarrow> nat \<Rightarrow> error + npfloat" where
  "built_similarity docs query c =
     (case build_termdoc_matrix docs None of
        Inl e \<Rightarrow> Inl e
      | Inr td_matrix \<Rightarrow> similarity query (build_lexicon docs) td_matrix c)"

text \<open>
  The notebook keeps the collection and the three structures in the global variables
  \<^verbatim>\<open>documents\<close>, \<^verbatim>\<open>lexicon\<close>, \<^verbatim>\<open>index\<close> and \<^verbatim>\<open>td_matrix\<close>, and a query is one of
  the statements \<^verbatim>\<open>get_postings(query, documents, index)\<close> and
  \<^verbatim>\<open>search(query, lexicon, index, td_matrix)\<close> run on them. \<open>run_get_postings\<close> and
  \<open>run_search\<close> are these statements on the state of the notebook: they give the value of
  the call and the state after it. A call changes a variable of the notebook only through
  an object it is given: \<^verbatim>\<open>get_postings\<close> is given the dictionary of the index, into
  which it stores, and \<^verbatim>\<open>search\<close> assigns to nothing it is given.
\<close>

record notebook =
  nb_documents :: "string list"
  nb_lexicon :: "string list"
  nb_index :: index
  nb_td_matrix :: matrix

definition run_get_postings :: "string \<Rightarrow> notebook \<Rightarrow> error + nat set \<times> notebook" where
  "run_get_postings query nb =
     (case get_postings query (nb_documents nb) (Some (nb_index nb)) of
        Inl e \<Rightarrow> Inl e
      | Inr (s, index') \<Rightarrow>
          Inr (s, case index' of None \<Rightarrow> nb | Some i \<Rightarrow> nb\<lparr>nb_index := i\<rparr>))"

definition run_search ::
  "(nat set \<Rightarrow> nat list) \<Rightarrow> string \<Rightarrow> notebook \<Rightarrow> error + search_out \<times> notebook" where
  "run_search set_iter query nb =
     (case search set_iter (nb_documents nb) query (nb_lexicon nb) (nb_index nb) (nb_td_matrix nb) of
        Inl e \<Rightarrow> Inl e
      | Inr out \<Rightarrow> Inr (out, nb))"

text \<open>
  The first position of a value in a list, which is what \<^verbatim>\<open>list.index\<close> returns when
  the value is in the list, and the postings list the code builds for a term.
\<close>

definition first_pos :: "'a list \<Rightarrow> 'a \<Rightarrow> nat" where
  "first_pos xs x = length (takeWhile (\<lambda>y. y \<noteq> x) xs)"

definition postings :: "string list \<Rightarrow> string \<Rightarrow> nat list" where
  "postings docs t = map (first_pos docs) (filter (\<lambda>d. t \<in> set (str_split d)) docs)"

definition built_index :: "string list \<Rightarrow> index" where
  "built_index docs = (\<lambda>t. if t \<in> set (build_lexicon docs) then Some (postings docs t) else None)"

text \<open>
  Reading an index as the \<^verbatim>\<open>defaultdict\<close> does, an absent term having the empty list;
  the index after the terms \<open>parts\<close> have been read from it; the terms of a list that are
  keys of an index.
\<close>

definition lookup :: "index \<Rightarrow> string \<Rightarrow> nat list" where
  "lookup idx t = (case idx t of None \<Rightarrow> [] | Some ps \<Rightarrow> ps)"

definition touched :: "index \<Rightarrow> string list \<Rightarrow> index" where
  "touched idx parts = (\<lambda>t. if t \<in> set parts \<and> idx t = None then Some [] else idx t)"

definition keys_among :: "index \<Rightarrow> string list \<Rightarrow> string list" where
  "keys_among idx ts = filter (\<lambda>t. idx t \<noteq> None) ts"

definition candidates :: "string list \<Rightarrow> string \<Rightarrow> nat set" where
  "candidates docs query =
     (if str_split query = [] then {}
      else (\<Inter>p\<in>set (str_split query). set (lookup (built_index docs) p)))"


text \<open>
  A matrix is well formed when its rows fit its shape; \<open>cell m i j\<close> is the entry
  \<^verbatim>\<open>m[i, j]\<close>. \<open>occurs docs lexicon ts i j\<close> says that the loops of
  \<^verbatim>\<open>build_termdoc_matrix\<close> over the terms \<open>ts\<close> assign the entry \<open>(i, j)\<close>.
\<close>

definition cell :: "matrix \<Rightarrow> nat \<Rightarrow> nat \<Rightarrow> double" where
  "cell m i j = cells m ! i ! j"

definition wf_matrix :: "matrix \<Rightarrow> bool" where
  "wf_matrix m = (length (cells m) = nrows m \<and> (\<forall>r\<in>set (cells m). length r = ncols m))"

definition shaped :: "nat \<Rightarrow> nat \<Rightarrow> matrix \<Rightarrow> bool" where
  "shaped r c m = (wf_matrix m \<and> nrows m = r \<and> ncols m = c)"

definition occurs :: "string list \<Rightarrow> string list \<Rightarrow> string list \<Rightarrow> nat \<Rightarrow> nat \<Rightarrow> bool" where
  "occurs docs lexicon ts i j =
     (\<exists>t\<in>set ts. \<exists>d\<in>set docs. i = first_pos lexicon t \<and> j = first_pos docs d \<and> sublist t d)"

definition lexicon_of :: "string list \<Rightarrow> string list option \<Rightarrow> string list" where
  "lexicon_of docs lexicon_arg = (case lexicon_arg of None \<Rightarrow> build_lexicon docs | Some l \<Rightarrow> l)"

text \<open>
  The number a double stands for, its significand, and the doubles that are zero.
\<close>

definition pow2 :: "int \<Rightarrow> rat" where
  "pow2 e = (if 0 \<le> e then 2 ^ nat e else 1 / 2 ^ nat (- e))"

fun dbl_val :: "double \<Rightarrow> rat" where
  "dbl_val (Dbl m e) = of_int m * pow2 e"

fun mant :: "double \<Rightarrow> int" where
  "mant (Dbl m e) = m"

definition is_zero :: "double \<Rightarrow> bool" where
  "is_zero x = (mant x = 0)"

text \<open>
  A similarity is finite when it is a number; \<open>fl_ge\<close> is the order of the finite ones.
  \<open>sim_of docs query c\<close> is the similarity of a document when its computation raises
  nothing.
\<close>

fun is_fin :: "npfloat \<Rightarrow> bool" where
  "is_fin (Fin r) = True"
| "is_fin x = False"

fun fl_ge :: "npfloat \<Rightarrow> npfloat \<Rightarrow> bool" where
  "fl_ge (Fin a) (Fin b) = (\<not> dbl_lt a b)"
| "fl_ge x y = False"

definition sim_of :: "string list \<Rightarrow> string \<Rightarrow> nat \<Rightarrow> npfloat" where
  "sim_of docs query c = (case built_similarity docs query c of Inr s \<Rightarrow> s | Inl e \<Rightarrow> NaN)"

text \<open>
  The similarity of a document as a number: the value of the double, when the
  computation raises nothing and the result is finite.
\<close>

definition sim_value :: "string list \<Rightarrow> string \<Rightarrow> nat \<Rightarrow> rat option" where
  "sim_value docs query c =
     (case built_similarity docs query c of
        Inr (Fin d) \<Rightarrow> Some (dbl_val d)
      | _ \<Rightarrow> None)"

text \<open>
  The postings of a term in the index built from a collection; the terms of a list that
  are keys of that index, before a query and after \<^verbatim>\<open>get_postings\<close> has run it.
\<close>

definition built_postings_of :: "string list \<Rightarrow> string \<Rightarrow> error + nat list option" where
  "built_postings_of docs t =
     (case build_inverted_index docs of Inl e \<Rightarrow> Inl e | Inr index \<Rightarrow> Inr (index t))"

definition keys_before :: "string list \<Rightarrow> string list \<Rightarrow> error + string list" where
  "keys_before docs ts =
     (case build_inverted_index docs of Inl e \<Rightarrow> Inl e | Inr index \<Rightarrow> Inr (keys_among index ts))"

definition keys_after :: "string list \<Rightarrow> string \<Rightarrow> string list \<Rightarrow> error + string list" where
  "keys_after docs query ts =
     (case built_postings docs query of
        Inl e \<Rightarrow> Inl e
      | Inr (s, index') \<Rightarrow> Inr (case index' of None \<Rightarrow> [] | Some index \<Rightarrow> keys_among index ts))"

text \<open>
  CPython keeps a set of up to four members in a table of eight slots. The hash of a
  small non-negative integer is the integer itself, so \<open>n\<close> goes to the slot \<open>n mod 8\<close>
  when that slot is free, and the iteration visits the slots in order. \<open>slot_order\<close> is
  that order for a set of up to four such integers no two of which are congruent
  modulo 8: \<^verbatim>\<open>list(set([1, 8]))\<close> is \<^verbatim>\<open>[8, 1]\<close>, and \<^verbatim>\<open>list(set([0, 1, 3]))\<close> is
  \<^verbatim>\<open>[0, 1, 3]\<close>.
\<close>

definition slot_order :: "nat set \<Rightarrow> nat list" where
  "slot_order s = sort_key (\<lambda>n. n mod 8) (sorted_list_of_set s)"

text \<open>
  A collection of nine different documents in which the documents 1 and 8 contain the
  term \<^verbatim>\<open>a\<close> and one other term each.
\<close>

definition tie_documents :: "string list" where
  "tie_documents = [''b'', ''a x'', ''c'', ''d'', ''e'', ''f'', ''g'', ''h'', ''a y'']"

section \<open>Properties\<close>

subsection \<open>The lexicon\<close>











subsection \<open>Auxiliary facts\<close>

lemma first_pos_Cons: "first_pos (y # ys) x = (if y = x then 0 else Suc (first_pos ys x))"
  by (simp add: first_pos_def)

lemma list_index_eq:
  "list_index xs x = (if x \<in> set xs then Inr (first_pos xs x) else Inl ValueError)"
  by (induction xs) (auto simp: first_pos_Cons)

lemma first_pos_less: "x \<in> set xs \<Longrightarrow> first_pos xs x < length xs"
  by (induction xs) (auto simp: first_pos_Cons)

lemma first_pos_nth: "x \<in> set xs \<Longrightarrow> xs ! first_pos xs x = x"
  by (induction xs) (auto simp: first_pos_Cons)

lemma first_pos_least: "j < first_pos xs x \<Longrightarrow> xs ! j \<noteq> x"
proof (induction xs arbitrary: j)
  case Nil
  then show ?case by (simp add: first_pos_def)
next
  case (Cons y ys)
  then show ?case by (cases j) (auto simp: first_pos_Cons split: if_splits)
qed

lemma first_pos_distinct: "distinct xs \<Longrightarrow> i < length xs \<Longrightarrow> first_pos xs (xs ! i) = i"
proof (induction xs arbitrary: i)
  case Nil
  then show ?case by simp
next
  case (Cons y ys)
  then show ?case by (cases i) (auto simp: first_pos_Cons)
qed

lemma postings_loop_eq:
  "set ds \<subseteq> set docs \<Longrightarrow>
   postings_loop docs t acc ds
     = Inr (acc @ map (first_pos docs) (filter (\<lambda>d. t \<in> set (str_split d)) ds))"
  by (induction ds arbitrary: acc) (auto simp: list_index_eq)

lemma index_loop_eq:
  "index_loop docs idx terms
     = Inr (\<lambda>t. if t \<in> set terms then Some (postings docs t) else idx t)"
proof (induction terms arbitrary: idx)
  case Nil
  show ?case by simp
next
  case (Cons a terms)
  have "postings_loop docs a [] docs = Inr (postings docs a)"
    by (simp add: postings_loop_eq postings_def)
  then show ?case by (auto simp: Cons.IH fun_eq_iff)
qed

lemma build_inverted_index_eq:
  "build_inverted_index docs
     = Inr (\<lambda>t. if t \<in> set (build_lexicon docs) then Some (postings docs t) else None)"
  by (simp add: build_inverted_index_def index_loop_eq)

lemma postings_member:
  "i \<in> set (postings docs t) \<longleftrightarrow>
     (\<exists>d\<in>set docs. t \<in> set (str_split d) \<and> i = first_pos docs d)"
  by (auto simp: postings_def)

lemma postings_distinct_docs:
  assumes "distinct docs"
  shows "i \<in> set (postings docs t) \<longleftrightarrow> i < length docs \<and> t \<in> set (str_split (docs ! i))"
proof
  assume "i \<in> set (postings docs t)"
  then obtain d where d: "d \<in> set docs" "t \<in> set (str_split d)" "i = first_pos docs d"
    by (auto simp: postings_member)
  then show "i < length docs \<and> t \<in> set (str_split (docs ! i))"
    by (simp add: first_pos_less first_pos_nth)
next
  assume a: "i < length docs \<and> t \<in> set (str_split (docs ! i))"
  then have "docs ! i \<in> set docs" "first_pos docs (docs ! i) = i"
    using assms by (simp_all add: first_pos_distinct)
  with a show "i \<in> set (postings docs t)"
    unfolding postings_member by metis
qed

lemma shaped_zeros: "shaped r c (zeros r c)"
  by (simp add: shaped_def wf_matrix_def zeros_def)

lemma cell_zeros: "i < r \<Longrightarrow> j < c \<Longrightarrow> cell (zeros r c) i j = fl_zero"
  by (simp add: cell_def zeros_def)

lemma set_cell_ok:
  assumes "shaped r c m" "i < r" "j < c"
  shows "\<exists>m'. set_cell m i j v = Inr m' \<and> shaped r c m'
           \<and> (\<forall>i'<r. \<forall>j'<c. cell m' i' j' = (if i' = i \<and> j' = j then v else cell m i' j'))"
proof -
  let ?m' = "m\<lparr>cells := (cells m)[i := (cells m ! i)[j := v]]\<rparr>"
  have len: "length (cells m) = r" and rows: "\<forall>r\<in>set (cells m). length r = c"
    and nr: "nrows m = r" and nc: "ncols m = c"
    using assms(1) by (auto simp: shaped_def wf_matrix_def)
  have "set_cell m i j v = Inr ?m'"
    using assms nr nc by (simp add: set_cell_def)
  moreover have "shaped r c ?m'"
    using len rows nr nc assms(2)
    by (auto simp: shaped_def wf_matrix_def dest!: set_update_subset_insert [THEN subsetD])
  moreover have "\<forall>i'<r. \<forall>j'<c. cell ?m' i' j' = (if i' = i \<and> j' = j then v else cell m i' j')"
    using len rows assms(2,3) by (auto simp: cell_def nth_list_update)
  ultimately show ?thesis by blast
qed

lemma row_loop_ok:
  assumes "shaped (length lexicon) (length docs) m" "t \<in> set lexicon" "set ds \<subseteq> set docs"
  shows "\<exists>m'. row_loop docs lexicon t m ds = Inr m' \<and> shaped (length lexicon) (length docs) m'
           \<and> (\<forall>i<length lexicon. \<forall>j<length docs.
                 cell m' i j = (if i = first_pos lexicon t
                                     \<and> (\<exists>d\<in>set ds. j = first_pos docs d \<and> sublist t d)
                                then fl_one else cell m i j))"
  using assms
proof (induction ds arbitrary: m)
  case Nil
  then show ?case by simp
next
  case (Cons d ds)
  have d: "d \<in> set docs" and ds: "set ds \<subseteq> set docs" using Cons.prems(3) by auto
  have li: "list_index lexicon t = Inr (first_pos lexicon t)" "list_index docs d = Inr (first_pos docs d)"
    using Cons.prems(2) d by (simp_all add: list_index_eq)
  show ?case
  proof (cases "sublist t d")
    case True
    obtain m1 where m1: "set_cell m (first_pos lexicon t) (first_pos docs d) fl_one = Inr m1"
      "shaped (length lexicon) (length docs) m1"
      "\<forall>i'<length lexicon. \<forall>j'<length docs.
         cell m1 i' j' = (if i' = first_pos lexicon t \<and> j' = first_pos docs d then fl_one else cell m i' j')"
      using set_cell_ok [OF Cons.prems(1) first_pos_less [OF Cons.prems(2)] first_pos_less [OF d], of fl_one]
      by blast
    obtain m' where m': "row_loop docs lexicon t m1 ds = Inr m'"
      "shaped (length lexicon) (length docs) m'"
      "\<forall>i<length lexicon. \<forall>j<length docs.
         cell m' i j = (if i = first_pos lexicon t
                             \<and> (\<exists>d\<in>set ds. j = first_pos docs d \<and> sublist t d)
                        then fl_one else cell m1 i j)"
      using Cons.IH [OF m1(2) Cons.prems(2) ds] by blast
    have "row_loop docs lexicon t m (d # ds) = Inr m'"
      using li True m1(1) m'(1) by simp
    moreover have "\<forall>i<length lexicon. \<forall>j<length docs.
         cell m' i j = (if i = first_pos lexicon t
                             \<and> (\<exists>d\<in>set (d # ds). j = first_pos docs d \<and> sublist t d)
                        then fl_one else cell m i j)"
      using m'(3) m1(3) True by auto
    ultimately show ?thesis using m'(2) by blast
  next
    case False
    obtain m' where m': "row_loop docs lexicon t m ds = Inr m'"
      "shaped (length lexicon) (length docs) m'"
      "\<forall>i<length lexicon. \<forall>j<length docs.
         cell m' i j = (if i = first_pos lexicon t
                             \<and> (\<exists>d\<in>set ds. j = first_pos docs d \<and> sublist t d)
                        then fl_one else cell m i j)"
      using Cons.IH [OF Cons.prems(1) Cons.prems(2) ds] by blast
    have "row_loop docs lexicon t m (d # ds) = Inr m'"
      using li False m'(1) by simp
    moreover have "\<forall>i<length lexicon. \<forall>j<length docs.
         cell m' i j = (if i = first_pos lexicon t
                             \<and> (\<exists>d\<in>set (d # ds). j = first_pos docs d \<and> sublist t d)
                        then fl_one else cell m i j)"
      using m'(3) False by auto
    ultimately show ?thesis using m'(2) by blast
  qed
qed

lemma occurs_Nil: "occurs docs lexicon [] i j = False"
  by (simp add: occurs_def)

lemma occurs_Cons:
  "occurs docs lexicon (t # ts) i j =
     ((i = first_pos lexicon t \<and> (\<exists>d\<in>set docs. j = first_pos docs d \<and> sublist t d))
      \<or> occurs docs lexicon ts i j)"
  by (auto simp: occurs_def)

lemma matrix_loop_ok:
  assumes "shaped (length lexicon) (length docs) m" "set ts \<subseteq> set lexicon"
  shows "\<exists>m'. matrix_loop docs lexicon m ts = Inr m' \<and> shaped (length lexicon) (length docs) m'
           \<and> (\<forall>i<length lexicon. \<forall>j<length docs.
                 cell m' i j = (if occurs docs lexicon ts i j then fl_one else cell m i j))"
  using assms
proof (induction ts arbitrary: m)
  case Nil
  then show ?case by (simp add: occurs_Nil)
next
  case (Cons t ts)
  have t: "t \<in> set lexicon" and ts: "set ts \<subseteq> set lexicon" using Cons.prems(2) by auto
  obtain m1 where m1: "row_loop docs lexicon t m docs = Inr m1"
    "shaped (length lexicon) (length docs) m1"
    "\<forall>i<length lexicon. \<forall>j<length docs.
       cell m1 i j = (if i = first_pos lexicon t
                           \<and> (\<exists>d\<in>set docs. j = first_pos docs d \<and> sublist t d)
                      then fl_one else cell m i j)"
    using row_loop_ok [OF Cons.prems(1) t subset_refl] by blast
  obtain m' where m': "matrix_loop docs lexicon m1 ts = Inr m'"
    "shaped (length lexicon) (length docs) m'"
    "\<forall>i<length lexicon. \<forall>j<length docs.
       cell m' i j = (if occurs docs lexicon ts i j then fl_one else cell m1 i j)"
    using Cons.IH [OF m1(2) ts] by blast
  have "matrix_loop docs lexicon m (t # ts) = Inr m'"
    using m1(1) m'(1) by simp
  moreover have "\<forall>i<length lexicon. \<forall>j<length docs.
       cell m' i j = (if occurs docs lexicon (t # ts) i j then fl_one else cell m i j)"
    using m'(3) m1(3) by (auto simp: occurs_Cons)
  ultimately show ?case using m'(2) by blast
qed

lemma build_termdoc_matrix_ok:
  "\<exists>m. build_termdoc_matrix docs larg = Inr m
       \<and> shaped (length (lexicon_of docs larg)) (length docs) m
       \<and> (\<forall>i<length (lexicon_of docs larg). \<forall>j<length docs.
             cell m i j = (if occurs docs (lexicon_of docs larg) (lexicon_of docs larg) i j
                           then fl_one else fl_zero))"
proof -
  let ?L = "lexicon_of docs larg"
  obtain m where m: "matrix_loop docs ?L (zeros (length ?L) (length docs)) ?L = Inr m"
    "shaped (length ?L) (length docs) m"
    "\<forall>i<length ?L. \<forall>j<length docs.
       cell m i j = (if occurs docs ?L ?L i j then fl_one else cell (zeros (length ?L) (length docs)) i j)"
    using matrix_loop_ok [OF shaped_zeros subset_refl] by blast
  have "build_termdoc_matrix docs larg = Inr m"
    using m(1) by (simp add: build_termdoc_matrix_def lexicon_of_def)
  then show ?thesis using m(2,3) by (auto simp: cell_zeros)
qed

lemma pow2_powi: "pow2 e = 2 powi e"
  by (simp add: pow2_def power_int_def field_simps)

lemma pow2_pos: "0 < pow2 e"
  by (simp add: pow2_powi)

lemma pow2_diff: "pow2 (a - b) = pow2 a / pow2 b"
  by (simp add: pow2_powi power_int_diff)

lemma pow2_nat: "0 \<le> k \<Longrightarrow> pow2 k = of_int (2 ^ nat k)"
  by (simp add: pow2_def)

lemma dbl_lt_val: "dbl_lt a b \<longleftrightarrow> dbl_val a < dbl_val b"
proof (cases a; cases b)
  fix m1 e1 m2 e2
  assume a: "a = Dbl m1 e1" and b: "b = Dbl m2 e2"
  let ?e = "min e1 e2"
  have "(of_int (m1 * 2 ^ nat (e1 - ?e)) :: rat) = of_int m1 * pow2 (e1 - ?e)"
    using pow2_nat [of "e1 - ?e"] by simp
  then have 1: "(of_int (m1 * 2 ^ nat (e1 - ?e)) :: rat) = of_int m1 * pow2 e1 / pow2 ?e"
    by (simp only: pow2_diff times_divide_eq_right)
  have "(of_int (m2 * 2 ^ nat (e2 - ?e)) :: rat) = of_int m2 * pow2 (e2 - ?e)"
    using pow2_nat [of "e2 - ?e"] by simp
  then have 2: "(of_int (m2 * 2 ^ nat (e2 - ?e)) :: rat) = of_int m2 * pow2 e2 / pow2 ?e"
    by (simp only: pow2_diff times_divide_eq_right)
  have "dbl_lt a b \<longleftrightarrow>
          (of_int (m1 * 2 ^ nat (e1 - ?e)) :: rat) < of_int (m2 * 2 ^ nat (e2 - ?e))"
    unfolding a b dbl_lt.simps by (simp only: of_int_less_iff)
  also have "\<dots> \<longleftrightarrow> of_int m1 * pow2 e1 < of_int m2 * pow2 e2"
    unfolding 1 2 using pow2_pos [of ?e] by (simp add: divide_less_cancel)
  finally show ?thesis by (simp add: a b)
qed

lemma strip_0: "strip 0 e = Dbl 0 0"
  by (simp add: strip.simps)

lemma strip_mant_pos: "0 < m \<Longrightarrow> 0 < mant (strip m e)"
proof (induction m e rule: strip.induct)
  case (1 m e)
  show ?case
  proof (cases "even m")
    case True
    then have "0 < m div 2" using "1.prems" by presburger
    then have "0 < mant (strip (m div 2) (e + 1))" using "1.IH" "1.prems" True by simp
    then show ?thesis using "1.prems" True by (simp add: strip.simps [of m e])
  next
    case False
    then show ?thesis using "1.prems" by (simp add: strip.simps [of m e])
  qed
qed

lemma nearest_ge_1: "0 < d \<Longrightarrow> d \<le> n \<Longrightarrow> 1 \<le> nearest n d"
proof -
  assume d: "0 < d" "d \<le> n"
  then have "0 < n div d" by (simp add: pos_imp_zdiv_pos_iff)
  then show ?thesis by (simp add: nearest_def nearest_qr_def)
qed

lemma bitlen_ge_1: "0 < n \<Longrightarrow> 1 \<le> bitlen n"
  using bitlen_eq_zero_iff [of n] bitlen_nonneg [of n] by linarith

lemma scaled_ge:
  assumes "0 < n" "0 < d" "bitlen d - bitlen n + 1 \<le> s"
  shows "0 < scale_den d s \<and> scale_den d s \<le> scale_num n s"
proof -
  have bn: "1 \<le> bitlen n" and bd: "1 \<le> bitlen d"
    using assms(1,2) by (simp_all add: bitlen_ge_1)
  have lo: "2 ^ nat (bitlen n - 1) \<le> n" using bitlen_bounds [OF assms(1)] by simp
  have hi: "d < 2 ^ nat (bitlen d)" using bitlen_bounds [OF assms(2)] by simp
  show ?thesis
  proof (cases "0 \<le> s")
    case True
    have "d < 2 ^ nat (bitlen d)" by (rule hi)
    also have "\<dots> \<le> (2::int) ^ (nat (bitlen n - 1) + nat s)"
      using assms(3) bn bd True by (intro power_increasing) auto
    also have "\<dots> = 2 ^ nat (bitlen n - 1) * 2 ^ nat s" by (simp add: power_add)
    also have "\<dots> \<le> n * 2 ^ nat s" using lo by simp
    finally show ?thesis using True assms(2) by (simp add: scale_num_def scale_den_def)
  next
    case False
    have "d * 2 ^ nat (- s) \<le> 2 ^ nat (bitlen d) * 2 ^ nat (- s)"
      using hi by simp
    also have "\<dots> = (2::int) ^ (nat (bitlen d) + nat (- s))" by (simp add: power_add)
    also have "\<dots> \<le> 2 ^ nat (bitlen n - 1)"
      using assms(3) bn bd False by (intro power_increasing) auto
    also have "\<dots> \<le> n" by (rule lo)
    finally show ?thesis using False assms(2) by (simp add: scale_num_def scale_den_def)
  qed
qed

lemma adjust_range: "adjust n d s = s \<or> adjust n d s = s - 1"
  by (simp add: adjust_def)

lemma round_pos_mant:
  assumes "0 < n" "0 < d"
  shows "0 < mant (round_pos n d e)"
proof -
  let ?s = "adjust n d (53 + bitlen d - bitlen n)"
  have "bitlen d - bitlen n + 1 \<le> ?s"
    using adjust_range [of n d "53 + bitlen d - bitlen n"] by auto
  then have "0 < scale_den d ?s \<and> scale_den d ?s \<le> scale_num n ?s"
    using assms by (intro scaled_ge)
  then have "1 \<le> nearest (scale_num n ?s) (scale_den d ?s)"
    by (intro nearest_ge_1) simp_all
  then have "0 < mant (strip (nearest (scale_num n ?s) (scale_den d ?s)) (e - ?s))"
    by (intro strip_mant_pos) simp
  then show ?thesis by (simp add: round_pos_def round_at_def)
qed

lemma round_ratio_0: "round_ratio 0 d e = Dbl 0 0"
  by (simp add: round_ratio_def)

lemma round_ratio_pos: "0 < n \<Longrightarrow> 0 < d \<Longrightarrow> 0 < mant (round_ratio n d e)"
  by (simp add: round_ratio_def round_pos_mant)

lemma round_ratio_nonneg: "0 \<le> n \<Longrightarrow> 0 < d \<Longrightarrow> 0 \<le> mant (round_ratio n d e)"
  using round_ratio_pos [of n d e] by (cases "n = 0") (auto simp: round_ratio_0)

lemma fl_mul_pos: "0 < mant x \<Longrightarrow> 0 < mant y \<Longrightarrow> 0 < mant (fl_mul x y)"
  by (cases x; cases y) (simp add: round_ratio_pos)

lemma fl_mul_self_nonneg: "0 \<le> mant (fl_mul x x)"
  by (cases x) (simp add: round_ratio_nonneg)

lemma fl_mul_self_pos: "mant x \<noteq> 0 \<Longrightarrow> 0 < mant (fl_mul x x)"
proof (cases x)
  case (Dbl m e)
  assume "mant x \<noteq> 0"
  then have "0 < m * m" using Dbl by (cases "0 < m") (auto simp: zero_less_mult_iff)
  then show ?thesis using Dbl by (simp add: round_ratio_pos)
qed

lemma fl_mul_zero_left: "mant x = 0 \<Longrightarrow> fl_mul x y = Dbl 0 0"
  by (cases x; cases y) (simp add: round_ratio_0)

lemma fl_mul_zero_right: "mant y = 0 \<Longrightarrow> fl_mul x y = Dbl 0 0"
  by (cases x; cases y) (simp add: round_ratio_0)

lemma fl_add_nonneg: "0 \<le> mant a \<Longrightarrow> 0 \<le> mant b \<Longrightarrow> 0 \<le> mant (fl_add a b)"
  by (cases a; cases b) (simp add: round_ratio_nonneg)

lemma fl_add_pos_left: "0 < mant a \<Longrightarrow> 0 \<le> mant b \<Longrightarrow> 0 < mant (fl_add a b)"
proof (cases a; cases b)
  fix m1 e1 m2 e2
  assume a: "a = Dbl m1 e1" and b: "b = Dbl m2 e2" and "0 < mant a" "0 \<le> mant b"
  then have "0 < m1 * 2 ^ nat (e1 - min e1 e2)" "0 \<le> m2 * 2 ^ nat (e2 - min e1 e2)"
    by simp_all
  then have "0 < m1 * 2 ^ nat (e1 - min e1 e2) + m2 * 2 ^ nat (e2 - min e1 e2)"
    by (rule add_pos_nonneg)
  then show ?thesis using a b by (simp add: round_ratio_pos)
qed

lemma fl_add_pos_right: "0 \<le> mant a \<Longrightarrow> 0 < mant b \<Longrightarrow> 0 < mant (fl_add a b)"
proof (cases a; cases b)
  fix m1 e1 m2 e2
  assume a: "a = Dbl m1 e1" and b: "b = Dbl m2 e2" and "0 \<le> mant a" "0 < mant b"
  then have "0 \<le> m1 * 2 ^ nat (e1 - min e1 e2)" "0 < m2 * 2 ^ nat (e2 - min e1 e2)"
    by simp_all
  then have "0 < m1 * 2 ^ nat (e1 - min e1 e2) + m2 * 2 ^ nat (e2 - min e1 e2)"
    by (rule add_nonneg_pos)
  then show ?thesis using a b by (simp add: round_ratio_pos)
qed

lemma fl_add_zero: "fl_add (Dbl 0 0) (Dbl 0 0) = Dbl 0 0"
  by (simp add: round_ratio_0)

lemma isqrt_ge_1: "1 \<le> n \<Longrightarrow> 1 \<le> isqrt n"
proof (induction n rule: isqrt.induct)
  case (1 n)
  have "0 \<le> isqrt (n div 4)"
  proof (cases "1 \<le> n div 4")
    case True
    then show ?thesis using "1.IH" "1.prems" by simp
  next
    case False
    then show ?thesis by (simp add: isqrt.simps [of "n div 4"])
  qed
  then show ?case using "1.prems"
    by (cases "isqrt (n div 4) = 0") (auto simp: isqrt.simps [of n] isqrt_step_def)
qed

lemma sqrt_round_ge: "r \<le> sqrt_round a b r"
  by (simp add: sqrt_round_def)

lemma sqrt_pos_mant:
  assumes "0 < m"
  shows "0 < mant (sqrt_pos m e)"
proof -
  let ?s = "106 - bitlen m - (106 - bitlen m) mod 2"
  let ?a = "scale_num m ?s" and ?b = "scale_den 1 ?s"
  have "(106 - bitlen m) mod 2 \<le> 1" by presburger
  moreover have "bitlen 1 = 1" by (simp add: compute_bitlen)
  ultimately have "bitlen 1 - bitlen m + 1 \<le> ?s" by linarith
  then have ab: "0 < ?b \<and> ?b \<le> ?a" using assms by (intro scaled_ge) simp_all
  then have "0 < ?a div ?b" by (simp add: pos_imp_zdiv_pos_iff)
  then have "1 \<le> ?a div ?b" by simp
  then have "1 \<le> isqrt (?a div ?b)" by (rule isqrt_ge_1)
  then have "0 < sqrt_round ?a ?b (isqrt (?a div ?b))"
    using sqrt_round_ge [of "isqrt (?a div ?b)" ?a ?b] by linarith
  then have "0 < mant (strip (sqrt_round ?a ?b (isqrt (?a div ?b))) ((e - ?s) div 2))"
    by (rule strip_mant_pos)
  then show ?thesis by (simp add: sqrt_pos_def sqrt_at_def)
qed

lemma fl_sqrt_pos: "0 < mant x \<Longrightarrow> 0 < mant (fl_sqrt x)"
  by (cases x) (simp add: sqrt_pos_mant)

lemma fl_sqrt_zero: "mant x = 0 \<Longrightarrow> fl_sqrt x = Dbl 0 0"
  by (cases x) simp

lemma dot_sum_fold_nonneg:
  "0 \<le> mant acc \<Longrightarrow> 0 \<le> mant (foldl (\<lambda>acc (x, y). fl_add acc (fl_mul x y)) acc (zip v v))"
proof (induction v arbitrary: acc)
  case Nil
  then show ?case by simp
next
  case (Cons a v)
  have "0 \<le> mant (fl_add acc (fl_mul a a))"
    using Cons.prems by (simp add: fl_add_nonneg fl_mul_self_nonneg)
  then show ?case using Cons.IH by simp
qed

lemma dot_sum_fold_pos:
  "0 < mant acc \<Longrightarrow> 0 < mant (foldl (\<lambda>acc (x, y). fl_add acc (fl_mul x y)) acc (zip v v))"
proof (induction v arbitrary: acc)
  case Nil
  then show ?case by simp
next
  case (Cons a v)
  have "0 < mant (fl_add acc (fl_mul a a))"
    using Cons.prems by (simp add: fl_add_pos_left fl_mul_self_nonneg)
  then show ?case using Cons.IH by simp
qed

lemma dot_sum_fold_pos_mem:
  "0 \<le> mant acc \<Longrightarrow> \<exists>x\<in>set v. mant x \<noteq> 0 \<Longrightarrow>
   0 < mant (foldl (\<lambda>acc (x, y). fl_add acc (fl_mul x y)) acc (zip v v))"
proof (induction v arbitrary: acc)
  case Nil
  then show ?case by simp
next
  case (Cons a v)
  show ?case
  proof (cases "mant a = 0")
    case True
    have "0 \<le> mant (fl_add acc (fl_mul a a))"
      using Cons.prems(1) by (simp add: fl_add_nonneg fl_mul_self_nonneg)
    moreover have "\<exists>x\<in>set v. mant x \<noteq> 0" using Cons.prems(2) True by auto
    ultimately show ?thesis using Cons.IH by simp
  next
    case False
    then have "0 < mant (fl_add acc (fl_mul a a))"
      using Cons.prems(1) by (simp add: fl_add_pos_right fl_mul_self_pos)
    then show ?thesis using dot_sum_fold_pos by simp
  qed
qed

lemma norm_pos: "\<exists>x\<in>set v. mant x \<noteq> 0 \<Longrightarrow> 0 < mant (norm v)"
  unfolding norm_def dot_sum_def by (rule fl_sqrt_pos) (simp add: dot_sum_fold_pos_mem)

lemma dot_sum_zero_left: "\<forall>x\<in>set v. mant x = 0 \<Longrightarrow> dot_sum v w = Dbl 0 0"
proof -
  have "\<forall>x\<in>set v. mant x = 0 \<Longrightarrow>
        foldl (\<lambda>acc (x, y). fl_add acc (fl_mul x y)) (Dbl 0 0) (zip v w) = Dbl 0 0" for v w
  proof (induction v arbitrary: w)
    case Nil
    then show ?case by simp
  next
    case (Cons a v)
    then show ?case by (cases w) (simp_all add: fl_mul_zero_left round_ratio_0)
  qed
  then show "\<forall>x\<in>set v. mant x = 0 \<Longrightarrow> dot_sum v w = Dbl 0 0" by (simp add: dot_sum_def)
qed

lemma dot_sum_zero_right: "\<forall>x\<in>set w. mant x = 0 \<Longrightarrow> dot_sum v w = Dbl 0 0"
proof -
  have "\<forall>x\<in>set w. mant x = 0 \<Longrightarrow>
        foldl (\<lambda>acc (x, y). fl_add acc (fl_mul x y)) (Dbl 0 0) (zip v w) = Dbl 0 0" for v w
  proof (induction v arbitrary: w)
    case Nil
    then show ?case by simp
  next
    case (Cons a v)
    then show ?case by (cases w) (simp_all add: fl_mul_zero_right round_ratio_0)
  qed
  then show "\<forall>x\<in>set w. mant x = 0 \<Longrightarrow> dot_sum v w = Dbl 0 0" by (simp add: dot_sum_def)
qed

lemma norm_zero: "\<forall>x\<in>set v. mant x = 0 \<Longrightarrow> norm v = Dbl 0 0"
  by (simp add: norm_def dot_sum_zero_left fl_sqrt_zero)

lemma distance_zero:
  assumes "length v = length w" "(\<forall>x\<in>set v. is_zero x) \<or> (\<forall>x\<in>set w. is_zero x)"
  shows "distance v w = Inr NaN"
proof -
  have "dot_sum v w = Dbl 0 0"
    using assms(2) dot_sum_zero_left dot_sum_zero_right unfolding is_zero_def by blast
  moreover have "fl_mul (norm v) (norm w) = Dbl 0 0"
    using assms(2) norm_zero unfolding is_zero_def
    by (auto simp: fl_mul_zero_left fl_mul_zero_right)
  ultimately show ?thesis using assms(1) by (simp add: distance_def dot_def)
qed

lemma mark_length: "length vec = length lexicon \<Longrightarrow> length (mark lexicon vec part) = length lexicon"
  by (simp add: mark_def)

lemma mark_nth:
  "length vec = length lexicon \<Longrightarrow> i < length lexicon \<Longrightarrow>
   mark lexicon vec part ! i
     = (if strip_nul (lexicon ! i) = strip_nul part then fl_one else vec ! i)"
  by (simp add: mark_def)

lemma mark_parts_ok:
  "length vec = length lexicon \<Longrightarrow>
   length (mark_parts lexicon vec parts) = length lexicon
   \<and> (\<forall>i<length lexicon.
         mark_parts lexicon vec parts ! i
           = (if strip_nul (lexicon ! i) \<in> strip_nul ` set parts then fl_one else vec ! i))"
proof (induction parts arbitrary: vec)
  case Nil
  then show ?case by simp
next
  case (Cons p parts)
  have "length (mark lexicon vec p) = length lexicon" using Cons.prems by (rule mark_length)
  from Cons.IH [OF this] show ?case using Cons.prems by (auto simp: mark_nth)
qed

lemma build_vector_length: "length (build_vector query lexicon) = length lexicon"
  by (simp add: build_vector_def mark_parts_ok)

lemma build_vector_nth:
  "i < length lexicon \<Longrightarrow>
   build_vector query lexicon ! i
     = (if strip_nul (lexicon ! i) \<in> strip_nul ` set (str_split query) then fl_one else fl_zero)"
  by (simp add: build_vector_def mark_parts_ok)

lemma lookup_upd_empty: "idx part = None \<Longrightarrow> lookup (idx(part \<mapsto> [])) = lookup idx"
  by (auto simp: lookup_def fun_eq_iff)

lemma touched_Cons_Some: "idx part = Some ps \<Longrightarrow> touched idx (part # parts) = touched idx parts"
  by (auto simp: touched_def fun_eq_iff)

lemma touched_Cons_None:
  "idx part = None \<Longrightarrow> touched idx (part # parts) = touched (idx(part \<mapsto> [])) parts"
  by (rule ext) (simp add: touched_def)

lemma lookup_parts_eq: "lookup_parts idx parts = (map (lookup idx) parts, touched idx parts)"
proof (induction parts arbitrary: idx)
  case Nil
  show ?case by (simp add: touched_def)
next
  case (Cons part parts)
  show ?case
  proof (cases "idx part")
    case None
    have "lookup_parts idx (part # parts)
            = ([] # map (lookup (idx(part \<mapsto> []))) parts, touched (idx(part \<mapsto> [])) parts)"
      by (simp only: lookup_parts.simps None option.case Cons.IH prod.case)
    moreover have "lookup idx part = []" using None by (simp add: lookup_def)
    ultimately show ?thesis
      by (simp only: lookup_upd_empty [of idx part, OF None]
            touched_Cons_None [of idx part parts, OF None] list.map)
  next
    case (Some ps)
    then show ?thesis
      by (simp add: Cons.IH touched_Cons_Some) (simp add: lookup_def)
  qed
qed

lemma foldl_inter: "foldl (\<inter>) s ss = s \<inter> \<Inter>(set ss)"
  by (induction ss arbitrary: s) auto

lemma set_intersection_eq: "ss \<noteq> [] \<Longrightarrow> set_intersection ss = Inr (\<Inter>(set ss))"
  by (cases ss) (auto simp: foldl_inter)

lemma get_postings_Some:
  "get_postings query docs (Some idx)
     = Inr (if str_split query = [] then {}
            else (\<Inter>p\<in>set (str_split query). set (lookup idx p)),
            Some (touched idx (str_split query)))"
proof (cases "str_split query = []")
  case True
  then show ?thesis by (simp add: get_postings_def touched_def)
next
  case False
  then have "set_intersection (map set (map (lookup idx) (str_split query)))
               = Inr (\<Inter>p\<in>set (str_split query). set (lookup idx p))"
    by (simp add: set_intersection_eq image_image)
  then show ?thesis using False by (simp add: get_postings_def lookup_parts_eq Let_def)
qed

lemma get_hits_eq:
  "get_hits query docs idx
     = (if str_split query = [] then {}
        else (\<Inter>p\<in>set (str_split query). set (lookup idx p)))"
proof (cases "str_split query")
  case Nil
  then show ?thesis by (simp add: get_hits_def)
next
  case (Cons p ps)
  have "(\<lambda>part. case idx part of None \<Rightarrow> {} | Some ps \<Rightarrow> set ps) = (\<lambda>part. set (lookup idx part))"
    by (auto simp: lookup_def fun_eq_iff split: option.splits)
  then show ?thesis using Cons by (simp add: get_hits_def foldl_inter)
qed

lemma get_postings_None:
  "get_postings query docs None
     = Inr (if str_split query = [] then {}
            else (\<Inter>p\<in>set (str_split query).
                    set (lookup (\<lambda>t. if t \<in> set (build_lexicon docs)
                                      then Some (postings docs t) else None) p)),
            None)"
proof (cases "str_split query = []")
  case True
  then show ?thesis by (simp add: get_postings_def)
next
  case False
  let ?idx = "\<lambda>t. if t \<in> set (build_lexicon docs) then Some (postings docs t) else None"
  have "set_intersection (map set (map (lookup ?idx) (str_split query)))
               = Inr (\<Inter>p\<in>set (str_split query). set (lookup ?idx p))"
    using False by (simp add: set_intersection_eq image_image)
  then show ?thesis
    using False by (simp add: get_postings_def lookup_parts_eq build_inverted_index_eq Let_def)
qed

lemma str_split_Nil:
  assumes "dropWhile is_space s = []"
  shows "str_split s = []"
  by (subst str_split.simps) (simp only: assms list.case)

lemma str_split_Cons:
  assumes "dropWhile is_space s = c # cs"
  shows "str_split s = (c # takeWhile (\<lambda>x. \<not> is_space x) cs)
                         # str_split (dropWhile (\<lambda>x. \<not> is_space x) cs)"
  by (subst str_split.simps) (simp only: assms list.case)

lemma str_split_sublist: "t \<in> set (str_split s) \<Longrightarrow> sublist t s"
proof (induction s arbitrary: t rule: str_split.induct)
  case (1 s)
  show ?case
  proof (cases "dropWhile is_space s")
    case Nil
    then show ?thesis using "1.prems" by (simp add: str_split_Nil)
  next
    case (Cons c cs)
    have s: "s = takeWhile is_space s @ c # cs"
      using Cons takeWhile_dropWhile_id [of is_space s] by simp
    have cs: "cs = takeWhile (\<lambda>x. \<not> is_space x) cs @ dropWhile (\<lambda>x. \<not> is_space x) cs"
      by simp
    from "1.prems" str_split_Cons [OF Cons]
    consider "t = c # takeWhile (\<lambda>x. \<not> is_space x) cs"
      | "t \<in> set (str_split (dropWhile (\<lambda>x. \<not> is_space x) cs))"
      by auto
    then show ?thesis
    proof cases
      case 1
      have "s = takeWhile is_space s @ t @ dropWhile (\<lambda>x. \<not> is_space x) cs"
        using s cs 1 by (metis append_Cons)
      then show ?thesis unfolding sublist_def by blast
    next
      case 2
      then have "sublist t (dropWhile (\<lambda>x. \<not> is_space x) cs)"
        using "1.IH" Cons by blast
      then obtain ps ss where "dropWhile (\<lambda>x. \<not> is_space x) cs = ps @ t @ ss"
        unfolding sublist_def by blast
      then have "s = (takeWhile is_space s @ c # takeWhile (\<lambda>x. \<not> is_space x) cs @ ps) @ t @ ss"
        using s cs by (metis append.assoc append_Cons)
      then show ?thesis unfolding sublist_def by blast
    qed
  qed
qed

lemma similarities_eq:
  "\<forall>c\<in>set cs. similarity query lexicon tdmat c = Inr (f c) \<Longrightarrow>
   similarities (build_vector query lexicon) tdmat cs = Inr (map f cs)"
proof (induction cs)
  case Nil
  show ?case by simp
next
  case (Cons c cs)
  then have "similarity query lexicon tdmat c = Inr (f c)"
    and "similarities (build_vector query lexicon) tdmat cs = Inr (map f cs)" by simp_all
  then show ?case by (auto simp: similarity_def split: sum.splits)
qed

lemma set_insort_desc: "set (insort_desc x ys) = insert x (set ys)"
  by (induction ys) auto

lemma set_foldr_insort_desc: "set (foldr insort_desc xs []) = set xs"
  by (induction xs) (auto simp: set_insort_desc)

lemma distinct_insort_desc:
  "distinct (map fst (insort_desc x ys)) = (fst x \<notin> fst ` set ys \<and> distinct (map fst ys))"
  by (induction ys) (auto simp: set_insort_desc)

lemma distinct_foldr_insort_desc:
  "distinct (map fst (foldr insort_desc xs [])) = distinct (map fst xs)"
  by (induction xs) (auto simp: distinct_insort_desc set_foldr_insort_desc)

lemma sorted_insort_desc:
  assumes "\<forall>p\<in>set (x # ys). is_fin (snd p)"
    and "sorted_wrt (\<lambda>p q. fl_ge (snd p) (snd q)) ys"
  shows "sorted_wrt (\<lambda>p q. fl_ge (snd p) (snd q)) (insort_desc x ys)"
  using assms
proof (induction ys)
  case Nil
  show ?case by simp
next
  case (Cons y ys)
  obtain a where a: "snd x = Fin a" using Cons.prems(1) by (cases "snd x") auto
  obtain b where b: "snd y = Fin b" using Cons.prems(1) by (cases "snd y") auto
  have fin: "\<And>z. z \<in> set ys \<Longrightarrow> \<exists>c. snd z = Fin c"
  proof -
    fix z assume "z \<in> set ys"
    then have "is_fin (snd z)" using Cons.prems(1) by simp
    then show "\<exists>c. snd z = Fin c" by (cases "snd z") auto
  qed
  show ?case
  proof (cases "dbl_lt a b")
    case True
    have "sorted_wrt (\<lambda>p q. fl_ge (snd p) (snd q)) (insort_desc x ys)"
      using Cons by simp
    moreover have "fl_ge (snd y) (snd x)"
      using True a b by (simp add: dbl_lt_val)
    moreover have "\<forall>z\<in>set ys. fl_ge (snd y) (snd z)"
      using Cons.prems(2) by simp
    ultimately show ?thesis using True a b by (simp add: set_insort_desc)
  next
    case False
    have "\<forall>z\<in>set ys. fl_ge (snd x) (snd z)"
    proof
      fix z assume z: "z \<in> set ys"
      then obtain c where c: "snd z = Fin c" using fin by blast
      have "fl_ge (snd y) (snd z)" using Cons.prems(2) z by simp
      then show "fl_ge (snd x) (snd z)" using False a b c by (simp add: dbl_lt_val)
    qed
    then show ?thesis using False a b Cons.prems(2) by simp
  qed
qed

lemma sorted_foldr_insort_desc:
  "\<forall>p\<in>set xs. is_fin (snd p) \<Longrightarrow>
   sorted_wrt (\<lambda>p q. fl_ge (snd p) (snd q)) (foldr insort_desc xs [])"
proof (induction xs)
  case Nil
  show ?case by simp
next
  case (Cons x xs)
  have "\<forall>p\<in>set (x # foldr insort_desc xs []). is_fin (snd p)"
    using Cons.prems by (simp add: set_foldr_insort_desc)
  moreover have "sorted_wrt (\<lambda>p q. fl_ge (snd p) (snd q)) (foldr insort_desc xs [])"
    using Cons by simp
  ultimately show ?case using sorted_insort_desc by simp
qed

lemma fl_lt_irrefl: "\<not> fl_lt k k"
  by (cases k) (auto simp: dbl_lt_val)

lemma filter_insort_desc:
  "filter (\<lambda>p. snd p = k) (insort_desc x ys)
     = (if snd x = k then x # filter (\<lambda>p. snd p = k) ys else filter (\<lambda>p. snd p = k) ys)"
  by (induction ys) (auto simp: fl_lt_irrefl)

lemma filter_foldr_insort_desc:
  "filter (\<lambda>p. snd p = k) (foldr insort_desc xs []) = filter (\<lambda>p. snd p = k) xs"
  by (induction xs) (auto simp: filter_insort_desc)

lemma zip_map_self: "zip cs (map f cs) = map (\<lambda>c. (c, f c)) cs"
  by (induction cs) auto

lemma sorted_desc_zip_set: "set (sorted_desc (zip cs (map f cs))) = set cs"
  by (simp add: sorted_desc_def set_foldr_insort_desc zip_map_self image_image)

lemma sorted_desc_zip_distinct: "distinct (sorted_desc (zip cs (map f cs))) = distinct cs"
  by (simp add: sorted_desc_def distinct_foldr_insort_desc)

lemma foldr_insort_desc_snd:
  "p \<in> set (foldr insort_desc (zip cs (map f cs)) []) \<Longrightarrow> snd p = f (fst p)"
  by (auto simp: set_foldr_insort_desc zip_map_self)

lemma sorted_desc_zip_sorted:
  assumes "\<forall>c\<in>set cs. is_fin (f c)"
  shows "sorted_wrt (\<lambda>c c'. fl_ge (f c) (f c')) (sorted_desc (zip cs (map f cs)))"
proof -
  let ?ps = "foldr insort_desc (zip cs (map f cs)) []"
  have "\<forall>p\<in>set (zip cs (map f cs)). is_fin (snd p)"
    using assms by (auto simp: zip_map_self)
  then have "sorted_wrt (\<lambda>p q. fl_ge (snd p) (snd q)) ?ps"
    by (rule sorted_foldr_insort_desc)
  then have "sorted_wrt (\<lambda>p q. fl_ge (f (fst p)) (f (fst q))) ?ps"
  proof (rule sorted_wrt_mono_rel [rotated])
    fix p q
    assume "p \<in> set ?ps" "q \<in> set ?ps" "fl_ge (snd p) (snd q)"
    then show "fl_ge (f (fst p)) (f (fst q))"
      by (simp add: foldr_insort_desc_snd)
  qed
  then show ?thesis by (simp add: sorted_desc_def sorted_wrt_map)
qed

lemma sorted_desc_zip_stable:
  "filter (\<lambda>c. f c = k) (sorted_desc (zip cs (map f cs))) = filter (\<lambda>c. f c = k) cs"
proof -
  let ?ps = "foldr insort_desc (zip cs (map f cs)) []"
  have "filter (\<lambda>c. f c = k) (map fst ?ps) = map fst (filter (\<lambda>p. f (fst p) = k) ?ps)"
    by (simp add: filter_map comp_def)
  also have "filter (\<lambda>p. f (fst p) = k) ?ps = filter (\<lambda>p. snd p = k) ?ps"
    by (rule filter_cong) (simp_all add: foldr_insort_desc_snd)
  also have "\<dots> = filter (\<lambda>p. snd p = k) (zip cs (map f cs))"
    by (rule filter_foldr_insort_desc)
  also have "map fst \<dots> = filter (\<lambda>c. f c = k) cs"
    by (induction cs) auto
  finally show ?thesis by (simp add: sorted_desc_def)
qed

lemma build_inverted_index_built: "build_inverted_index docs = Inr (built_index docs)"
  by (simp add: build_inverted_index_eq built_index_def)

lemma built_postings_eq:
  "built_postings docs query
     = Inr (candidates docs query, Some (touched (built_index docs) (str_split query)))"
  by (simp add: built_postings_def build_inverted_index_built get_postings_Some candidates_def)

lemma lookup_built_index:
  "lookup (built_index docs) p = (if p \<in> set (build_lexicon docs) then postings docs p else [])"
  by (simp add: lookup_def built_index_def)

lemma finite_candidates: "finite (candidates docs query)"
proof (cases "str_split query")
  case Nil
  then show ?thesis by (simp add: candidates_def)
next
  case (Cons p ps)
  then have "candidates docs query \<subseteq> set (lookup (built_index docs) p)"
    by (auto simp: candidates_def)
  then show ?thesis by (rule finite_subset) simp
qed

lemma candidate_postings:
  assumes "c \<in> candidates docs query" "p \<in> set (str_split query)"
  shows "p \<in> set (build_lexicon docs) \<and> c \<in> set (postings docs p)"
proof -
  have "str_split query \<noteq> []" using assms(2) by auto
  then have "c \<in> set (lookup (built_index docs) p)"
    using assms by (auto simp: candidates_def)
  then show ?thesis by (auto simp: lookup_built_index split: if_splits)
qed

lemma candidate_nonempty_query: "c \<in> candidates docs query \<Longrightarrow> str_split query \<noteq> []"
  by (auto simp: candidates_def split: if_splits)

lemma candidate_document:
  assumes "c \<in> candidates docs query"
  shows "c < length docs \<and> first_pos docs (docs ! c) = c
         \<and> (\<forall>p\<in>set (str_split query). p \<in> set (str_split (docs ! c)))"
proof -
  have tok: "\<And>p. p \<in> set (str_split query) \<Longrightarrow>
               c < length docs \<and> first_pos docs (docs ! c) = c \<and> p \<in> set (str_split (docs ! c))"
  proof -
    fix p assume "p \<in> set (str_split query)"
    then have "c \<in> set (postings docs p)" using assms candidate_postings by blast
    then obtain d where d: "d \<in> set docs" "p \<in> set (str_split d)" "c = first_pos docs d"
      by (auto simp: postings_member)
    then have "docs ! c = d" by (simp add: first_pos_nth)
    then show "c < length docs \<and> first_pos docs (docs ! c) = c \<and> p \<in> set (str_split (docs ! c))"
      using d by (simp add: first_pos_less)
  qed
  obtain p where "p \<in> set (str_split query)"
    using candidate_nonempty_query [OF assms] by (cases "str_split query") auto
  then show ?thesis using tok by blast
qed

lemma fl_div_fin: "0 < mant y \<Longrightarrow> \<exists>r. fl_div x y = Fin r"
  by (cases x; cases y) simp

lemma candidate_similarity:
  assumes "c \<in> candidates docs query"
  shows "\<exists>r. built_similarity docs query c = Inr (Fin r)"
proof -
  let ?L = "build_lexicon docs"
  let ?vec = "build_vector query ?L"
  obtain m where m: "build_termdoc_matrix docs None = Inr m"
    "shaped (length ?L) (length docs) m"
    "\<forall>i<length ?L. \<forall>j<length docs.
       cell m i j = (if occurs docs ?L ?L i j then fl_one else fl_zero)"
    using build_termdoc_matrix_ok [of docs None] by (auto simp: lexicon_of_def)
  have doc: "c < length docs" "first_pos docs (docs ! c) = c"
    "\<forall>p\<in>set (str_split query). p \<in> set (str_split (docs ! c))"
    using candidate_document [OF assms] by simp_all
  obtain p where p: "p \<in> set (str_split query)"
    using candidate_nonempty_query [OF assms] by (cases "str_split query") auto
  have pL: "p \<in> set ?L" using candidate_postings [OF assms p] by simp
  let ?i = "first_pos ?L p"
  have i: "?i < length ?L" "?L ! ?i = p" using pL by (simp_all add: first_pos_less first_pos_nth)
  let ?col = "map (\<lambda>row. row ! c) (cells m)"
  have col: "column m c = Inr ?col" using m(2) doc(1) by (simp add: column_def shaped_def)
  have len: "length ?col = length ?L" using m(2) by (simp add: shaped_def wf_matrix_def)
  have "strip_nul (?L ! ?i) \<in> strip_nul ` set (str_split query)" using i(2) p by simp
  then have "?vec ! ?i = fl_one" using i(1) by (simp add: build_vector_nth)
  moreover have "?vec ! ?i \<in> set ?vec"
    using i(1) build_vector_length [of query ?L] by simp
  ultimately have "fl_one \<in> set ?vec" by simp
  moreover have one: "mant fl_one \<noteq> 0" by simp
  ultimately have vec1: "\<exists>x\<in>set ?vec. mant x \<noteq> 0" by blast
  have "sublist p (docs ! c)" using doc(3) p str_split_sublist by blast
  then have "occurs docs ?L ?L ?i c"
    using pL doc(1,2) unfolding occurs_def by (metis nth_mem)
  then have "cell m ?i c = fl_one" using m(3) i(1) doc(1) by simp
  then have "?col ! ?i = fl_one" using i(1) len by (simp add: cell_def)
  moreover have "?col ! ?i \<in> set ?col" using i(1) len by (metis nth_mem)
  ultimately have "fl_one \<in> set ?col" by simp
  then have col1: "\<exists>x\<in>set ?col. mant x \<noteq> 0" using one by blast
  have "0 < mant (fl_mul (norm ?vec) (norm ?col))"
    using norm_pos [OF vec1] norm_pos [OF col1] by (rule fl_mul_pos)
  then obtain r where "fl_div (dot_sum ?vec ?col) (fl_mul (norm ?vec) (norm ?col)) = Fin r"
    using fl_div_fin by blast
  then have "distance ?vec ?col = Inr (Fin r)"
    using len by (simp add: distance_def dot_def build_vector_length)
  then show ?thesis using m(1) col by (simp add: built_similarity_def similarity_def)
qed

lemma candidate_sim_of:
  assumes "c \<in> candidates docs query"
  shows "built_similarity docs query c = Inr (sim_of docs query c) \<and> is_fin (sim_of docs query c)"
  using candidate_similarity [OF assms] by (auto simp: sim_of_def)

lemma search_built_eq:
  assumes "set_order_ok set_iter"
  shows "search_built set_iter docs query
           = Inr \<lparr>printed = map (sim_of docs query) (set_iter (candidates docs query)),
                  results = sorted_desc (zip (set_iter (candidates docs query))
                              (map (sim_of docs query) (set_iter (candidates docs query))))\<rparr>"
proof -
  let ?L = "build_lexicon docs"
  let ?cs = "set_iter (candidates docs query)"
  obtain m where m: "build_termdoc_matrix docs None = Inr m"
    using build_termdoc_matrix_ok [of docs None] by blast
  have cs: "set ?cs = candidates docs query"
    using assms finite_candidates by (simp add: set_order_ok_def)
  have "\<forall>c\<in>set ?cs. similarity query ?L m c = Inr (sim_of docs query c)"
    using cs candidate_sim_of [of _ docs query] m by (simp add: built_similarity_def)
  then have "similarities (build_vector query ?L) m ?cs = Inr (map (sim_of docs query) ?cs)"
    by (rule similarities_eq)
  moreover have "get_hits query docs (built_index docs) = candidates docs query"
    by (simp add: get_hits_eq candidates_def)
  ultimately show ?thesis
    using m by (simp add: search_built_def build_inverted_index_built search_def Let_def)
qed

subsection \<open>Sorting and the search\<close>

lemma filter_insort_desc_pred:
  assumes "\<And>a b. P a \<Longrightarrow> P b \<Longrightarrow> \<not> fl_lt a b"
  shows "filter (\<lambda>p. P (snd p)) (insort_desc x ys)
           = (if P (snd x) then x # filter (\<lambda>p. P (snd p)) ys else filter (\<lambda>p. P (snd p)) ys)"
  using assms by (induction ys) auto

lemma filter_foldr_insort_desc_pred:
  assumes "\<And>a b. P a \<Longrightarrow> P b \<Longrightarrow> \<not> fl_lt a b"
  shows "filter (\<lambda>p. P (snd p)) (foldr insort_desc xs []) = filter (\<lambda>p. P (snd p)) xs"
  by (induction xs) (simp_all add: filter_insort_desc_pred [of P, OF assms])

lemma sorted_desc_zip_stable_pred:
  assumes "\<And>a b. P a \<Longrightarrow> P b \<Longrightarrow> \<not> fl_lt a b"
  shows "filter (\<lambda>c. P (f c)) (sorted_desc (zip cs (map f cs))) = filter (\<lambda>c. P (f c)) cs"
proof -
  let ?ps = "foldr insort_desc (zip cs (map f cs)) []"
  have "filter (\<lambda>c. P (f c)) (map fst ?ps) = map fst (filter (\<lambda>p. P (f (fst p))) ?ps)"
    by (simp add: filter_map comp_def)
  also have "filter (\<lambda>p. P (f (fst p))) ?ps = filter (\<lambda>p. P (snd p)) ?ps"
    by (rule filter_cong) (simp_all add: foldr_insort_desc_snd)
  also have "\<dots> = filter (\<lambda>p. P (snd p)) (zip cs (map f cs))"
    using assms by (rule filter_foldr_insort_desc_pred)
  also have "map fst \<dots> = filter (\<lambda>c. P (f c)) cs"
    by (induction cs) auto
  finally show ?thesis by (simp add: sorted_desc_def)
qed

lemma same_value_not_lt:
  "(\<exists>d. a = Fin d \<and> dbl_val d = v) \<Longrightarrow> (\<exists>d. b = Fin d \<and> dbl_val d = v) \<Longrightarrow> \<not> fl_lt a b"
  by (auto simp: dbl_lt_val)

lemma sim_value_sim_of:
  assumes "c \<in> candidates docs query"
  shows "sim_value docs query c = Some v \<longleftrightarrow> (\<exists>d. sim_of docs query c = Fin d \<and> dbl_val d = v)"
proof -
  obtain r where "built_similarity docs query c = Inr (Fin r)"
    using candidate_similarity [OF assms] by blast
  then show ?thesis by (auto simp: sim_value_def sim_of_def)
qed

lemma candidate_sim_value:
  assumes "c \<in> candidates docs query"
  shows "\<exists>v. sim_value docs query c = Some v"
  using candidate_similarity [OF assms] by (auto simp: sim_value_def)

lemma fl_ge_sim_value:
  assumes "c \<in> candidates docs query" "c' \<in> candidates docs query"
    and "fl_ge (sim_of docs query c) (sim_of docs query c')"
  shows "\<exists>a b. sim_value docs query c = Some a \<and> sim_value docs query c' = Some b \<and> b \<le> a"
proof -
  obtain r r' where r: "built_similarity docs query c = Inr (Fin r)"
    "built_similarity docs query c' = Inr (Fin r')"
    using candidate_similarity assms(1,2) by blast
  then have "\<not> dbl_lt r r'" using assms(3) by (simp add: sim_of_def)
  then have "dbl_val r' \<le> dbl_val r" by (simp add: dbl_lt_val)
  then show ?thesis using r by (simp add: sim_value_def)
qed

lemma set_order_ok_sorted: "set_order_ok sorted_list_of_set"
  by (simp add: set_order_ok_def)

lemma set_order_ok_slot: "set_order_ok slot_order"
  by (simp add: set_order_ok_def slot_order_def)

lemma dom_touched: "dom (touched idx parts) = dom idx \<union> set parts"
  by (auto simp: touched_def dom_def split: if_splits)

lemma touched_keeps: "t \<in> dom idx \<Longrightarrow> touched idx parts t = idx t"
  by (auto simp: touched_def)

lemma touched_new: "t \<in> set parts \<Longrightarrow> t \<notin> dom idx \<Longrightarrow> touched idx parts t = Some []"
  by (auto simp: touched_def)

lemma lookup_touched: "lookup (touched idx parts) t = lookup idx t"
  by (simp add: lookup_def touched_def)

lemma run_get_postings_eq:
  "run_get_postings query nb
     = Inr (if str_split query = [] then {}
            else (\<Inter>p\<in>set (str_split query). set (lookup (nb_index nb) p)),
            nb\<lparr>nb_index := touched (nb_index nb) (str_split query)\<rparr>)"
  by (simp add: run_get_postings_def get_postings_Some)

lemma run_search_state:
  "run_search set_iter query nb = Inr (out, nb') \<Longrightarrow> nb' = nb"
  by (auto simp: run_search_def split: sum.splits)

lemma results_search_built:
  assumes "set_order_ok set_iter"
  shows "\<exists>out. search_built set_iter docs query = Inr out
           \<and> set (results out) = candidates docs query \<and> distinct (results out)
           \<and> sorted_wrt (\<lambda>c c'. \<exists>a b. sim_value docs query c = Some a
                                    \<and> sim_value docs query c' = Some b \<and> b \<le> a) (results out)
           \<and> (\<forall>v. filter (\<lambda>c. sim_value docs query c = Some v) (results out)
                    = filter (\<lambda>c. sim_value docs query c = Some v)
                        (set_iter (candidates docs query)))"
proof -
  let ?cs = "set_iter (candidates docs query)"
  let ?f = "sim_of docs query"
  let ?r = "sorted_desc (zip ?cs (map ?f ?cs))"
  have cs: "set ?cs = candidates docs query" "distinct ?cs"
    using assms finite_candidates by (simp_all add: set_order_ok_def)
  have r: "set ?r = candidates docs query" "distinct ?r"
    using cs by (simp_all add: sorted_desc_zip_set sorted_desc_zip_distinct)
  have "\<forall>c\<in>set ?cs. is_fin (?f c)"
    using cs(1) candidate_sim_of by blast
  then have "sorted_wrt (\<lambda>c c'. fl_ge (?f c) (?f c')) ?r"
    by (rule sorted_desc_zip_sorted)
  then have sorted: "sorted_wrt (\<lambda>c c'. \<exists>a b. sim_value docs query c = Some a
                                    \<and> sim_value docs query c' = Some b \<and> b \<le> a) ?r"
  proof (rule sorted_wrt_mono_rel [rotated])
    fix c c'
    assume "c \<in> set ?r" "c' \<in> set ?r" "fl_ge (?f c) (?f c')"
    then show "\<exists>a b. sim_value docs query c = Some a \<and> sim_value docs query c' = Some b \<and> b \<le> a"
      using r(1) fl_ge_sim_value by blast
  qed
  have stable: "\<forall>v. filter (\<lambda>c. sim_value docs query c = Some v) ?r
                    = filter (\<lambda>c. sim_value docs query c = Some v) ?cs"
  proof
    fix v
    let ?P = "\<lambda>s. \<exists>d. s = Fin d \<and> dbl_val d = v"
    have "filter (\<lambda>c. sim_value docs query c = Some v) ?r = filter (\<lambda>c. ?P (?f c)) ?r"
      by (rule filter_cong) (simp_all add: r(1) sim_value_sim_of)
    also have "\<dots> = filter (\<lambda>c. ?P (?f c)) ?cs"
      by (rule sorted_desc_zip_stable_pred) (rule same_value_not_lt)
    also have "\<dots> = filter (\<lambda>c. sim_value docs query c = Some v) ?cs"
      by (rule filter_cong) (simp_all add: cs(1) sim_value_sim_of)
    finally show "filter (\<lambda>c. sim_value docs query c = Some v) ?r
                    = filter (\<lambda>c. sim_value docs query c = Some v) ?cs" .
  qed
  show ?thesis
    using r sorted stable by (simp add: search_built_eq [OF assms])
qed

lemma candidates_out_of_vocabulary:
  assumes "p \<in> set (str_split query)" "p \<notin> set (build_lexicon docs)"
  shows "candidates docs query = {}"
  using assms candidate_postings by blast

subsection \<open>Evaluations\<close>

lemma reference_candidates:
  "map_sum id fst (built_postings documents ''cat very'') = Inr {0, 1, 3}"
  by code_simp

lemma reference_similarity_0:
  "built_similarity documents ''cat very'' 0 = Inr (Fin (Dbl 4814550517949481 (- 53)))"
  by code_simp

lemma reference_similarity_1:
  "built_similarity documents ''cat very'' 1 = Inr (Fin (Dbl 5696652996790543 (- 53)))"
  by code_simp

lemma reference_similarity_3:
  "built_similarity documents ''cat very'' 3 = Inr (Fin (Dbl 4503599627370495 (- 52)))"
  by code_simp

lemma tie_search:
  "map_sum id results (search_built slot_order tie_documents ''a'') = Inr [8, 1]"
  by code_simp

lemma tie_similarity_1:
  "built_similarity tie_documents ''a'' 1 = Inr (Fin (Dbl 1592262918131443 (- 51)))"
  by code_simp

lemma tie_similarity_8:
  "built_similarity tie_documents ''a'' 8 = Inr (Fin (Dbl 1592262918131443 (- 51)))"
  by code_simp

lemma small_search:
  "map_sum id results (search_built sorted_list_of_set [''a b'', ''b''] ''b'') = Inr [1, 0]"
  by code_simp

lemma sim_value_Fin:
  "built_similarity docs query c = Inr (Fin d) \<Longrightarrow> sim_value docs query c = Some (dbl_val d)"
  by (simp add: sim_value_def)

lemma reference_values:
  "sim_value documents ''cat very'' 0 = Some (4814550517949481 / 2 ^ 53)"
  "sim_value documents ''cat very'' 1 = Some (5696652996790543 / 2 ^ 53)"
  "sim_value documents ''cat very'' 3 = Some (1 - 1 / 2 ^ 52)"
  using sim_value_Fin [OF reference_similarity_0] sim_value_Fin [OF reference_similarity_1]
    sim_value_Fin [OF reference_similarity_3]
  by (simp_all add: pow2_def)

lemma three_permutations:
  assumes "distinct r" "set r = {a, b, c}" "a \<noteq> b" "a \<noteq> c" "b \<noteq> c"
  shows "r \<in> {[a, b, c], [a, c, b], [b, a, c], [b, c, a], [c, a, b], [c, b, a]}"
proof -
  have "length r = card (set r)" using assms(1) by (simp add: distinct_card)
  also have "\<dots> = 3" using assms(2-5) by simp
  finally obtain x y z where r: "r = [x, y, z]"
    by (auto simp: numeral_3_eq_3 length_Suc_conv)
  have "x \<in> {a, b, c}" "y \<in> {a, b, c}" "z \<in> {a, b, c}" using assms(2) r by auto
  moreover have "x \<noteq> y" "x \<noteq> z" "y \<noteq> z" using assms(1) r by auto
  ultimately show ?thesis unfolding r by auto
qed

lemma reference_results:
  assumes "distinct r" "set r = {0, 1, 3}"
    and "sorted_wrt (\<lambda>c c'. \<exists>a b. sim_value documents ''cat very'' c = Some a
                              \<and> sim_value documents ''cat very'' c' = Some b \<and> b \<le> a) r"
  shows "r = [3, 1, 0::nat]"
proof -
  have "r \<in> {[0, 1, 3], [0, 3, 1], [1, 0, 3], [1, 3, 0], [3, 0, 1], [3, 1, 0]}"
    using three_permutations [OF assms(1,2)] by simp
  then show ?thesis using assms(3) reference_values by auto
qed

subsection \<open>The rounding of the arithmetic\<close>

text \<open>
  The operations of the double-precision model round as IEEE 754 asks. \<open>round_pos\<close>
  returns \<open>M * 2 ^ (e - s)\<close> for an integer \<open>M\<close> of 53 bits (or \<open>2 ^ 53\<close> itself) that
  is within one half of the exact quotient scaled by \<open>2 ^ s\<close>; \<open>sqrt_pos\<close> returns
  \<open>R * 2 ^ ((e - s) div 2)\<close> for such an \<open>R\<close> within one half of the exact root of the
  argument scaled by \<open>2 ^ s\<close>, \<open>s\<close> even.
\<close>

lemma pow2_Suc: "pow2 (e + 1) = 2 * pow2 e"
  by (simp add: pow2_powi power_int_add)

lemma strip_val: "dbl_val (strip m e) = of_int m * pow2 e"
proof (induction m e rule: strip.induct)
  case (1 m e)
  show ?case
  proof (cases "m = 0")
    case True
    then show ?thesis by (simp add: strip_0)
  next
    case False
    show ?thesis
    proof (cases "even m")
      case True
      then have "dbl_val (strip m e) = of_int (m div 2) * pow2 (e + 1)"
        using False "1.IH" by (simp add: strip.simps [of m e])
      also have "\<dots> = of_int (2 * (m div 2)) * pow2 e"
        by (simp add: pow2_Suc)
      also have "2 * (m div 2) = m" using True by simp
      finally show ?thesis .
    next
      case odd: False
      then show ?thesis using False by (simp add: strip.simps [of m e])
    qed
  qed
qed

lemma nearest_close:
  assumes "0 < d"
  shows "2 * \<bar>nearest n d * d - n\<bar> \<le> d"
proof -
  have n: "n = n div d * d + n mod d" by simp
  have r: "0 \<le> n mod d" "n mod d < d" using assms by simp_all
  have "nearest n d = n div d \<and> 2 * (n mod d) \<le> d
        \<or> nearest n d = n div d + 1 \<and> d \<le> 2 * (n mod d)"
    by (auto simp: nearest_def nearest_qr_def)
  then show ?thesis
  proof
    assume a: "nearest n d = n div d \<and> 2 * (n mod d) \<le> d"
    then have "nearest n d * d - n = - (n mod d)" using n by (simp add: algebra_simps) 
    then show ?thesis using a r by simp
  next
    assume a: "nearest n d = n div d + 1 \<and> d \<le> 2 * (n mod d)"
    then have "nearest n d * d - n = d - n mod d"
      using n by (simp add: algebra_simps)
    then show ?thesis using a r by simp
  qed
qed

lemma isqrt_nonneg: "0 \<le> isqrt n"
proof (induction n rule: isqrt.induct)
  case (1 n)
  show ?case
  proof (cases "n \<le> 0")
    case True
    then show ?thesis by (simp add: isqrt.simps [of n])
  next
    case False
    then have "0 \<le> isqrt (n div 4)" using "1.IH" by simp
    then show ?thesis using False by (simp add: isqrt.simps [of n] isqrt_step_def)
  qed
qed

lemma isqrt_correct: "0 \<le> n \<Longrightarrow> isqrt n * isqrt n \<le> n \<and> n < (isqrt n + 1) * (isqrt n + 1)"
proof (induction n rule: isqrt.induct)
  case (1 n)
  show ?case
  proof (cases "n \<le> 0")
    case True
    then have "isqrt n = 0" by (simp add: isqrt.simps [of n])
    then show ?thesis using "1.prems" True by simp
  next
    case False
    let ?q = "isqrt (n div 4)"
    have ih: "?q * ?q \<le> n div 4 \<and> n div 4 < (?q + 1) * (?q + 1)"
      using "1.IH" False "1.prems" by simp
    have lo: "(2 * ?q) * (2 * ?q) \<le> n"
    proof -
      have "4 * (?q * ?q) \<le> 4 * (n div 4)" using ih by simp
      also have "\<dots> \<le> n" using "1.prems" by simp
      finally show ?thesis by (simp add: algebra_simps)
    qed
    have hi: "n < (2 * ?q + 2) * (2 * ?q + 2)"
    proof -
      have "n div 4 + 1 \<le> (?q + 1) * (?q + 1)" using ih by simp
      then have "4 * (n div 4) + 4 \<le> 4 * ((?q + 1) * (?q + 1))" by simp
      moreover have "n < 4 * (n div 4) + 4" by presburger
      ultimately show ?thesis by (simp add: algebra_simps)
    qed
    show ?thesis
      using lo hi False by (auto simp: isqrt.simps [of n] isqrt_step_def algebra_simps)
  qed
qed


lemma pow2_add: "pow2 (a + b) = pow2 a * pow2 b"
  by (simp add: pow2_powi power_int_add)

lemma pow2_numeral: "pow2 (int k) = 2 ^ k"
  by (simp add: pow2_def)

lemma pow2_pred: "pow2 s = 2 * pow2 (s - 1)"
  using pow2_Suc [of "s - 1"] by simp

lemma half_range:
  "(2 :: rat) ^ 53 \<le> z \<Longrightarrow> z < 2 ^ 54 \<Longrightarrow> 2 ^ 52 \<le> z / 2 \<and> z / 2 < 2 ^ 53"
  by simp

lemma scale_val:
  assumes "0 < d"
  shows "0 < scale_den d s
         \<and> (of_int (scale_num n s) :: rat) / of_int (scale_den d s) = of_int n / of_int d * pow2 s"
proof (cases "0 \<le> s")
  case True
  then show ?thesis using assms by (simp add: scale_num_def scale_den_def pow2_def)
next
  case False
  then show ?thesis using assms by (simp add: scale_num_def scale_den_def pow2_def)
qed

lemma bitlen_rat_bounds:
  assumes "0 < n"
  shows "pow2 (bitlen n - 1) \<le> of_int n \<and> (of_int n :: rat) < pow2 (bitlen n)"
proof -
  have bn: "1 \<le> bitlen n" using assms by (rule bitlen_ge_1)
  have "(of_int (2 ^ nat (bitlen n - 1)) :: rat) \<le> of_int n"
    using bitlen_bounds [OF assms] by (simp only: of_int_le_iff)
  moreover have "(of_int n :: rat) < of_int (2 ^ nat (bitlen n))"
    using bitlen_bounds [OF assms] by (simp only: of_int_less_iff)
  ultimately show ?thesis using bn by (simp add: pow2_nat)
qed

lemma ratio_bounds:
  assumes "0 < n" "0 < d"
  shows "pow2 (bitlen n - bitlen d - 1) < of_int n / of_int d
         \<and> (of_int n / of_int d :: rat) < pow2 (bitlen n - bitlen d + 1)"
proof -
  note bn = bitlen_rat_bounds [OF assms(1)] and bd = bitlen_rat_bounds [OF assms(2)]
  have dpos: "(0::rat) < of_int d" and npos: "(0::rat) < of_int n" using assms by simp_all
  have "pow2 (bitlen n - bitlen d - 1) = pow2 (bitlen n - 1) / pow2 (bitlen d)"
    using pow2_diff [of "bitlen n - 1" "bitlen d"] by (simp add: algebra_simps)
  also have "\<dots> \<le> of_int n / pow2 (bitlen d)"
    using bn pow2_pos [of "bitlen d"] by (simp add: divide_right_mono)
  also have "\<dots> < of_int n / of_int d"
    using bd npos dpos by (simp add: divide_strict_left_mono)
  finally have lo: "pow2 (bitlen n - bitlen d - 1) < of_int n / of_int d" .
  have "(of_int n / of_int d :: rat) < pow2 (bitlen n) / of_int d"
    using bn dpos by (simp add: divide_strict_right_mono)
  also have "\<dots> \<le> pow2 (bitlen n) / pow2 (bitlen d - 1)"
    using bd pow2_pos [of "bitlen n"] pow2_pos [of "bitlen d - 1"]
    by (simp add: divide_left_mono)
  also have "\<dots> = pow2 (bitlen n - bitlen d + 1)"
    using pow2_diff [of "bitlen n" "bitlen d - 1"] by (simp add: algebra_simps)
  finally show ?thesis using lo by simp
qed

lemma adjust_scaled:
  assumes "0 < n" "0 < d"
  defines "s \<equiv> adjust n d (53 + bitlen d - bitlen n)"
  shows "2 ^ 52 \<le> of_int n / of_int d * pow2 s \<and> (of_int n / of_int d * pow2 s :: rat) < 2 ^ 53"
proof -
  let ?x = "of_int n / of_int d :: rat"
  let ?s0 = "53 + bitlen d - bitlen n"
  have x: "pow2 (bitlen n - bitlen d - 1) < ?x" "?x < pow2 (bitlen n - bitlen d + 1)"
    using ratio_bounds [OF assms(1,2)] by simp_all
  have "pow2 52 = pow2 (bitlen n - bitlen d - 1) * pow2 ?s0"
    by (simp flip: pow2_add)
  also have "\<dots> < ?x * pow2 ?s0" by (rule mult_strict_right_mono [OF x(1) pow2_pos])
  finally have lo: "2 ^ 52 < ?x * pow2 ?s0" using pow2_numeral [of 52] by simp
  have "?x * pow2 ?s0 < pow2 (bitlen n - bitlen d + 1) * pow2 ?s0"
    by (rule mult_strict_right_mono [OF x(2) pow2_pos])
  also have "\<dots> = pow2 54" by (simp flip: pow2_add)
  finally have hi: "?x * pow2 ?s0 < 2 ^ 54" using pow2_numeral [of 54] by simp
  have den: "0 < scale_den d ?s0"
    and val: "(of_int (scale_num n ?s0) :: rat) / of_int (scale_den d ?s0) = ?x * pow2 ?s0"
    using scale_val [OF assms(2), of ?s0 n] by simp_all
  have test: "(2 ^ 53 * scale_den d ?s0 \<le> scale_num n ?s0) \<longleftrightarrow> 2 ^ 53 \<le> ?x * pow2 ?s0"
  proof -
    have "(2 ^ 53 * scale_den d ?s0 \<le> scale_num n ?s0)
          \<longleftrightarrow> (of_int (2 ^ 53 * scale_den d ?s0) :: rat) \<le> of_int (scale_num n ?s0)"
      by (simp only: of_int_le_iff)
    also have "\<dots> \<longleftrightarrow> (2 ^ 53 :: rat) \<le> of_int (scale_num n ?s0) / of_int (scale_den d ?s0)"
      using den by (simp add: le_divide_eq)
    finally show ?thesis using val by simp
  qed
  show ?thesis
  proof (cases "2 ^ 53 * scale_den d ?s0 \<le> scale_num n ?s0")
    case True
    then have s: "s = ?s0 - 1" by (simp add: s_def adjust_def)
    have half: "?x * pow2 s = ?x * pow2 ?s0 / 2"
      unfolding s by (subst pow2_pred [of ?s0]) simp
    show ?thesis using half_range [of "?x * pow2 ?s0"] True test hi unfolding half by blast
  next
    case False
    then have s: "s = ?s0" by (simp add: s_def adjust_def)
    show ?thesis using False test lo unfolding s by simp
  qed
qed

lemma round_pos_correct:
  assumes "0 < n" "0 < d"
  shows "\<exists>M s. dbl_val (round_pos n d e) = of_int M * pow2 (e - s)
           \<and> 2 ^ 52 \<le> M \<and> M \<le> 2 ^ 53
           \<and> \<bar>of_int M - of_int n / of_int d * pow2 s\<bar> \<le> (1 / 2 :: rat)"
proof -
  let ?s = "adjust n d (53 + bitlen d - bitlen n)"
  let ?a = "scale_num n ?s" and ?b = "scale_den d ?s"
  let ?M = "nearest ?a ?b"
  let ?y = "of_int n / of_int d * pow2 ?s :: rat"
  have b: "0 < ?b" and val: "(of_int ?a :: rat) / of_int ?b = ?y"
    using scale_val [OF assms(2), of ?s n] by simp_all
  have y: "2 ^ 52 \<le> ?y" "?y < 2 ^ 53" using adjust_scaled [OF assms] by simp_all
  have "2 * \<bar>?M * ?b - ?a\<bar> \<le> ?b" using b by (rule nearest_close)
  then have "(of_int (2 * \<bar>?M * ?b - ?a\<bar>) :: rat) \<le> of_int ?b" by (simp only: of_int_le_iff)
  then have "2 * \<bar>of_int ?M * of_int ?b - (of_int ?a :: rat)\<bar> \<le> of_int ?b" by simp
  then have "2 * \<bar>of_int ?M * of_int ?b - (of_int ?a :: rat)\<bar> / of_int ?b \<le> 1"
    using b by (simp add: divide_le_eq)
  moreover have "\<bar>of_int ?M * of_int ?b - (of_int ?a :: rat)\<bar> / of_int ?b
                 = \<bar>of_int ?M - of_int ?a / of_int ?b\<bar>"
  proof -
    have "of_int ?M - of_int ?a / of_int ?b
          = (of_int ?M * of_int ?b - of_int ?a) / (of_int ?b :: rat)"
      using b by (simp add: diff_divide_distrib)
    then show ?thesis using b by simp
  qed
  ultimately have close: "\<bar>of_int ?M - ?y\<bar> \<le> (1 / 2 :: rat)" using val by simp
  have "(2 ^ 52 :: rat) - 1 / 2 \<le> of_int ?M" using close y(1) by linarith
  then have "(of_int (2 ^ 52 - 1) :: rat) < of_int ?M" by simp
  then have "2 ^ 52 - 1 < ?M" by (simp only: of_int_less_iff)
  then have lo: "2 ^ 52 \<le> ?M" by simp
  have "(of_int ?M :: rat) < 2 ^ 53 + 1 / 2" using close y(2) by linarith
  then have "(of_int ?M :: rat) < of_int (2 ^ 53 + 1)" by simp
  then have "?M < 2 ^ 53 + 1" by (simp only: of_int_less_iff)
  then have hi: "?M \<le> 2 ^ 53" by simp
  have "dbl_val (round_pos n d e) = of_int ?M * pow2 (e - ?s)"
    by (simp add: round_pos_def round_at_def strip_val)
  then show ?thesis using lo hi close by blast
qed


lemma sqrt_round_bounds:
  assumes b: "0 < b" and r: "1 \<le> r" and lo: "r * r * b \<le> a" and hi: "a < (r + 1) * (r + 1) * b"
  shows "(2 * sqrt_round a b r - 1) * (2 * sqrt_round a b r - 1) * b \<le> 4 * a
         \<and> 4 * a \<le> (2 * sqrt_round a b r + 1) * (2 * sqrt_round a b r + 1) * b
         \<and> r \<le> sqrt_round a b r \<and> sqrt_round a b r \<le> r + 1"
proof -
  define P where "P = r * r * b"
  define Q where "Q = r * b"
  have Q: "0 < Q" using b r by (simp add: Q_def)
  have e1: "(2 * r + 1) * (2 * r + 1) * b = 4 * P + 4 * Q + b"
    by (simp add: P_def Q_def algebra_simps)
  have e2: "(r + 1) * (r + 1) * b = P + 2 * Q + b"
    by (simp add: P_def Q_def algebra_simps)
  have e3: "(2 * r - 1) * (2 * r - 1) * b = 4 * P - 4 * Q + b"
    by (simp add: P_def Q_def algebra_simps)
  have e4: "(2 * (r + 1) + 1) * (2 * (r + 1) + 1) * b = 4 * P + 12 * Q + 9 * b"
    by (simp add: P_def Q_def algebra_simps)
  have e5: "(2 * (r + 1) - 1) * (2 * (r + 1) - 1) * b = 4 * P + 4 * Q + b"
    by (simp add: P_def Q_def algebra_simps)
  have lo': "P \<le> a" using lo by (simp only: P_def)
  have hi': "a < P + 2 * Q + b" using hi by (simp only: e2)
  have Qb: "b \<le> Q" using b r by (simp add: Q_def)
  have "sqrt_round a b r = r + 1 \<and> 4 * P + 4 * Q + b \<le> 4 * a
        \<or> sqrt_round a b r = r \<and> 4 * a \<le> 4 * P + 4 * Q + b"
    unfolding sqrt_round_def e1 by auto
  then consider (up) "sqrt_round a b r = r + 1" "4 * P + 4 * Q + b \<le> 4 * a"
    | (down) "sqrt_round a b r = r" "4 * a \<le> 4 * P + 4 * Q + b"
    by blast
  then show ?thesis
  proof cases
    case up
    show ?thesis unfolding up(1) e4 e5 using up(2) hi' b Q by simp
  next
    case down
    show ?thesis unfolding down(1) e1 e3 using down(2) lo' b Q Qb by simp
  qed
qed

lemma sqrt_scale_even: "even (k - k mod 2 :: int)"
  by presburger

lemma sqrt_scale_range:
  assumes "0 < m"
  defines "s \<equiv> 106 - bitlen m - (106 - bitlen m) mod 2"
  shows "2 ^ 104 \<le> of_int m * pow2 s \<and> (of_int m * pow2 s :: rat) < 2 ^ 106"
proof -
  note bm = bitlen_rat_bounds [OF assms(1)]
  have ps: "0 < pow2 s" by (rule pow2_pos)
  have lo: "pow2 (bitlen m - 1 + s) \<le> of_int m * pow2 s"
    unfolding pow2_add using bm ps by simp
  have hi: "of_int m * pow2 s < pow2 (bitlen m + s)"
    unfolding pow2_add using bm ps by simp
  have "s = 106 - bitlen m \<or> s = 105 - bitlen m"
    unfolding s_def by presburger
  then consider "s = 106 - bitlen m" | "s = 105 - bitlen m"
    by blast
  then show ?thesis
  proof cases
    case 1
    have e: "bitlen m - 1 + s = 105" "bitlen m + s = 106" using 1 by simp_all
    have "pow2 105 \<le> of_int m * pow2 s" "of_int m * pow2 s < pow2 106"
      using lo hi unfolding e by blast+
    then show ?thesis using pow2_numeral [of 105] pow2_numeral [of 106] by simp
  next
    case 2
    have e: "bitlen m - 1 + s = 104" "bitlen m + s = 105" using 2 by simp_all
    have "pow2 104 \<le> of_int m * pow2 s" "of_int m * pow2 s < pow2 105"
      using lo hi unfolding e by blast+
    then show ?thesis using pow2_numeral [of 104] pow2_numeral [of 105] by simp
  qed
qed

lemma sqrt_pos_correct:
  assumes "0 < m"
  shows "\<exists>R s. dbl_val (sqrt_pos m e) = of_int R * pow2 ((e - s) div 2)
           \<and> even s \<and> 2 ^ 52 \<le> R \<and> R \<le> 2 ^ 53
           \<and> (of_int (2 * R - 1)) ^ 2 \<le> 4 * (of_int m * pow2 s)
           \<and> 4 * (of_int m * pow2 s) \<le> (of_int (2 * R + 1) :: rat) ^ 2"
proof -
  define s where "s = 106 - bitlen m - (106 - bitlen m) mod 2"
  define a where "a = scale_num m s"
  define b where "b = scale_den 1 s"
  define q where "q = a div b"
  define r where "r = isqrt q"
  define R where "R = sqrt_round a b r"
  let ?y = "of_int m * pow2 s :: rat"
  have b: "0 < b" and val: "(of_int a :: rat) / of_int b = ?y"
    using scale_val [of 1 s m] by (simp_all add: a_def b_def)
  have ab: "(of_int a :: rat) = ?y * of_int b" using val b by (simp add: field_simps)
  have y: "2 ^ 104 \<le> ?y" "?y < 2 ^ 106"
    using sqrt_scale_range [OF assms] by (simp_all add: s_def)
  have "(of_int (2 ^ 104 * b) :: rat) \<le> of_int a" unfolding ab using y(1) b by simp
  then have a_lo: "2 ^ 104 * b \<le> a" by (simp only: of_int_le_iff)
  have "(of_int a :: rat) < of_int (2 ^ 106 * b)" unfolding ab using y(2) b by simp
  then have a_hi: "a < 2 ^ 106 * b" by (simp only: of_int_less_iff)
  have q0: "0 \<le> q" using a_lo b by (simp add: q_def pos_imp_zdiv_nonneg_iff order_trans [of 0 "2 ^ 104 * b" a])
  have "a = b * q + a mod b" by (simp add: q_def)
  moreover have "0 \<le> a mod b" "a mod b < b" using b by simp_all
  moreover have "(q + 1) * b = b * q + b" "q * b = b * q" by (simp_all add: algebra_simps)
  ultimately have qa: "q * b \<le> a" "a < (q + 1) * b" by linarith+
  have rq: "r * r \<le> q" "q < (r + 1) * (r + 1)" using isqrt_correct [OF q0] by (simp_all add: r_def)
  have r0: "0 \<le> r" by (simp add: r_def isqrt_nonneg)
  have "r * r * b \<le> q * b" using rq(1) b by simp
  then have lo: "r * r * b \<le> a" using qa(1) by simp
  have "q + 1 \<le> (r + 1) * (r + 1)" using rq(2) by simp
  then have "(q + 1) * b \<le> (r + 1) * (r + 1) * b" using b by simp
  then have hi: "a < (r + 1) * (r + 1) * b" using qa(2) by simp
  have "2 ^ 104 * b < (r + 1) * (r + 1) * b" using a_lo hi by simp
  then have "(2 ^ 52 :: int)\<^sup>2 < (r + 1)\<^sup>2" using b by (simp add: power2_eq_square)
  moreover have "0 \<le> r + 1" using r0 by simp
  ultimately have "(2 ^ 52 :: int) < r + 1" by (rule power2_less_imp_less)
  then have r_lo: "2 ^ 52 \<le> r" by simp
  have "r * r * b < 2 ^ 106 * b" using lo a_hi by simp
  then have "r\<^sup>2 < (2 ^ 53 :: int)\<^sup>2" using b by (simp add: power2_eq_square)
  then have r_hi: "r < 2 ^ 53" by (rule power2_less_imp_less) simp
  have r1: "1 \<le> r" using r_lo by simp
  note sb = sqrt_round_bounds [OF b r1 lo hi, folded R_def]
  have R_lo: "2 ^ 52 \<le> R" and R_hi: "R \<le> 2 ^ 53" using sb r_lo r_hi by simp_all
  have "(of_int ((2 * R - 1) * (2 * R - 1) * b) :: rat) \<le> of_int (4 * a)"
    using sb by (simp only: of_int_le_iff)
  then have "(of_int (2 * R - 1)) ^ 2 * (of_int b :: rat) \<le> 4 * ?y * of_int b"
    by (simp add: ab power2_eq_square)
  then have c1: "(of_int (2 * R - 1)) ^ 2 \<le> 4 * ?y" using b by simp
  have "(of_int (4 * a) :: rat) \<le> of_int ((2 * R + 1) * (2 * R + 1) * b)"
    using sb by (simp only: of_int_le_iff)
  then have "4 * ?y * of_int b \<le> (of_int (2 * R + 1)) ^ 2 * (of_int b :: rat)"
    by (simp add: ab power2_eq_square)
  then have c2: "4 * ?y \<le> (of_int (2 * R + 1) :: rat) ^ 2" using b by simp
  have "dbl_val (sqrt_pos m e) = of_int R * pow2 ((e - s) div 2)"
    by (simp add: sqrt_pos_def sqrt_at_def strip_val R_def r_def q_def a_def b_def s_def)
  moreover have "even s" unfolding s_def by (rule sqrt_scale_even)
  ultimately show ?thesis using R_lo R_hi c1 c2 by blast
qed


section \<open>The claims\<close>

subsection \<open>The lexicon\<close>




subsection \<open>The term-document matrix\<close>

text \<open>
  C1. The claim is that the entry \<open>(i, j)\<close> of the matrix is 1 if and only if the term
  \<open>i\<close> of the lexicon is a token of the document \<open>j\<close>. The code tests
  \<^verbatim>\<open>term in d\<close> on the text of the document, which holds for every substring: for the
  collection of the documents \<^verbatim>\<open>category\<close> and \<^verbatim>\<open>cat\<close> the lexicon is \<^verbatim>\<open>cat\<close>,
  \<^verbatim>\<open>category\<close>, the term \<^verbatim>\<open>cat\<close> is no token of the document 0, and the entry
  \<open>(0, 0)\<close> of the matrix is 1.
\<close>

theorem termdoc_matrix_substring_match:
  "build_lexicon [''category'', ''cat''] = [''cat'', ''category'']
   \<and> ''cat'' \<notin> set (str_split ''category'')
   \<and> build_termdoc_matrix [''category'', ''cat''] None
       = Inr \<lparr>nrows = 2, ncols = 2, cells = [[fl_one, fl_one], [fl_one, fl_zero]]\<rparr>"
  by code_simp

text \<open>
  C9. For every collection, \<^verbatim>\<open>build_termdoc_matrix\<close> called with the lexicon of the
  collection as its optional argument returns what the call without that argument
  returns, and the call raises nothing: it returns a matrix with one row for each term
  of the lexicon and one column for each document.
\<close>

theorem build_termdoc_matrix_lexicon_arg:
  "build_termdoc_matrix docs (Some (build_lexicon docs)) = build_termdoc_matrix docs None
   \<and> (\<exists>m. build_termdoc_matrix docs None = Inr m
          \<and> nrows m = length (build_lexicon docs) \<and> ncols m = length docs)"
proof -
  have "build_termdoc_matrix docs (Some (build_lexicon docs)) = build_termdoc_matrix docs None"
    by (simp add: build_termdoc_matrix_def)
  moreover have "\<exists>m. build_termdoc_matrix docs None = Inr m
          \<and> nrows m = length (build_lexicon docs) \<and> ncols m = length docs"
    using build_termdoc_matrix_ok [of docs None] by (auto simp: lexicon_of_def shaped_def)
  ultimately show ?thesis by simp
qed

subsection \<open>The inverted index\<close>

text \<open>
  C2. The claim is that \<open>d\<close> is in the postings of \<open>t\<close> if and only if \<open>t\<close> is a token of
  the document at the position \<open>d\<close>, also when a text occurs at several positions. The
  code appends \<^verbatim>\<open>documents.index(d)\<close>, the first position of the text: for the
  collection of two documents \<^verbatim>\<open>a\<close> the postings of \<^verbatim>\<open>a\<close> are \<open>[0, 0]\<close>, without the
  position 1, whose document has the token \<^verbatim>\<open>a\<close>.
\<close>

theorem inverted_index_repeated_document:
  "built_postings_of [''a'', ''a''] ''a'' = Inr (Some [0, 0])
   \<and> ''a'' \<in> set (str_split ([''a'', ''a''] ! 1))"
  by code_simp

subsection \<open>Cosine similarity of a zero vector\<close>

text \<open>
  C3. The claim is that \<^verbatim>\<open>distance\<close> raises a division-by-zero error when one of two
  vectors of equal length is the zero vector. numpy's division raises nothing: the call
  returns not-a-number, here for the vectors \<open>(0, 0)\<close> and \<open>(1, 0)\<close>.
\<close>

theorem distance_zero_vector_returns:
  "distance [fl_zero, fl_zero] [fl_one, fl_zero] = Inr NaN"
  by code_simp

text \<open>
  C3, as amended. For all vectors of equal length of which at least one is the zero
  vector, \<^verbatim>\<open>distance\<close> raises no error and returns not-a-number.
\<close>

theorem distance_zero_vector_nan:
  "length v = length w \<Longrightarrow> (\<forall>x\<in>set v. is_zero x) \<or> (\<forall>x\<in>set w. is_zero x) \<Longrightarrow>
   distance v w = Inr NaN"
  by (rule distance_zero)

theorem distance_zero_vector_nan_witness:
  "length [fl_zero, fl_zero, fl_zero] = length [fl_one, fl_zero, fl_one]
   \<and> list_all is_zero [fl_zero, fl_zero, fl_zero]
   \<and> distance [fl_zero, fl_zero, fl_zero] [fl_one, fl_zero, fl_one] = Inr NaN"
  using distance_zero_vector_nan [of "[fl_zero, fl_zero, fl_zero]" "[fl_one, fl_zero, fl_one]"]
  by (simp add: is_zero_def)

subsection \<open>The index after a query\<close>

text \<open>
  C8. The claim is that \<^verbatim>\<open>get_postings\<close> and \<^verbatim>\<open>search\<close> leave the lexicon, the index
  and the matrix unchanged, the index after a query having exactly the terms and
  postings it had. Reading the \<^verbatim>\<open>defaultdict\<close> at a token that is no key stores an
  empty list under it: the index built from the one document \<^verbatim>\<open>a\<close> has, of the terms
  \<^verbatim>\<open>a\<close> and \<^verbatim>\<open>b\<close>, the key \<^verbatim>\<open>a\<close> before \<^verbatim>\<open>get_postings\<close> runs the query \<^verbatim>\<open>b\<close> and
  both after it.
\<close>

theorem get_postings_adds_key:
  "keys_before [''a''] [''a'', ''b''] = Inr [''a'']
   \<and> keys_after [''a''] ''b'' [''a'', ''b''] = Inr [''a'', ''b'']"
  by code_simp

text \<open>
  C8, as amended. For every state of the notebook and every query, \<^verbatim>\<open>get_postings\<close>
  raises nothing and leaves the collection, the lexicon and the matrix unchanged; in the
  index after it every term that was a key has exactly the postings it had, and the one
  change is that every token of the query that was no key is a key with an empty
  postings list: the keys are the keys before and the tokens of the query, and the
  postings read for any term (empty for a term that is no key) are the same before and
  after. A \<^verbatim>\<open>search\<close> that returns leaves the collection, the lexicon, the index and the
  matrix unchanged.
\<close>

theorem query_index_effect:
  "(\<exists>s nb'. run_get_postings query nb = Inr (s, nb')
       \<and> nb_documents nb' = nb_documents nb
       \<and> nb_lexicon nb' = nb_lexicon nb
       \<and> nb_td_matrix nb' = nb_td_matrix nb
       \<and> dom (nb_index nb') = dom (nb_index nb) \<union> set (str_split query)
       \<and> (\<forall>t\<in>dom (nb_index nb). nb_index nb' t = nb_index nb t)
       \<and> (\<forall>t\<in>set (str_split query) - dom (nb_index nb). nb_index nb' t = Some [])
       \<and> (\<forall>t. lookup (nb_index nb') t = lookup (nb_index nb) t))
   \<and> (\<forall>out nb'. run_search set_iter query nb = Inr (out, nb') \<longrightarrow>
          nb_documents nb' = nb_documents nb
          \<and> nb_lexicon nb' = nb_lexicon nb
          \<and> nb_index nb' = nb_index nb
          \<and> nb_td_matrix nb' = nb_td_matrix nb)"
proof -
  let ?nb' = "nb\<lparr>nb_index := touched (nb_index nb) (str_split query)\<rparr>"
  have "\<exists>s. run_get_postings query nb = Inr (s, ?nb')"
    by (simp add: run_get_postings_eq)
  moreover have "dom (nb_index ?nb') = dom (nb_index nb) \<union> set (str_split query)"
    by (simp add: dom_touched)
  moreover have "\<forall>t\<in>dom (nb_index nb). nb_index ?nb' t = nb_index nb t"
    by (simp add: touched_keeps)
  moreover have "\<forall>t\<in>set (str_split query) - dom (nb_index nb). nb_index ?nb' t = Some []"
    by (simp add: touched_new)
  moreover have "\<forall>t. lookup (nb_index ?nb') t = lookup (nb_index nb) t"
    by (simp add: lookup_touched)
  moreover have "nb_documents ?nb' = nb_documents nb" "nb_lexicon ?nb' = nb_lexicon nb"
    "nb_td_matrix ?nb' = nb_td_matrix nb"
    by simp_all
  ultimately have "\<exists>s nb'. run_get_postings query nb = Inr (s, nb')
       \<and> nb_documents nb' = nb_documents nb
       \<and> nb_lexicon nb' = nb_lexicon nb
       \<and> nb_td_matrix nb' = nb_td_matrix nb
       \<and> dom (nb_index nb') = dom (nb_index nb) \<union> set (str_split query)
       \<and> (\<forall>t\<in>dom (nb_index nb). nb_index nb' t = nb_index nb t)
       \<and> (\<forall>t\<in>set (str_split query) - dom (nb_index nb). nb_index nb' t = Some [])
       \<and> (\<forall>t. lookup (nb_index nb') t = lookup (nb_index nb) t)"
    by blast
  then show ?thesis using run_search_state [of set_iter query nb] by blast
qed

theorem query_index_effect_witness:
  "(\<exists>s nb'. run_get_postings ''b a''
        \<lparr>nb_documents = [''a''], nb_lexicon = [''a''], nb_index = [''a'' \<mapsto> [0]],
         nb_td_matrix = \<lparr>nrows = 1, ncols = 1, cells = [[fl_one]]\<rparr>\<rparr> = Inr (s, nb')
       \<and> nb_lexicon nb' = [''a'']
       \<and> nb_td_matrix nb' = \<lparr>nrows = 1, ncols = 1, cells = [[fl_one]]\<rparr>
       \<and> nb_index nb' ''a'' = Some [0]
       \<and> nb_index nb' ''b'' = Some [])
   \<and> run_search sorted_list_of_set ''b a''
        \<lparr>nb_documents = [''a''], nb_lexicon = [''a''], nb_index = [''a'' \<mapsto> [0]],
         nb_td_matrix = \<lparr>nrows = 1, ncols = 1, cells = [[fl_one]]\<rparr>\<rparr>
       = Inr (\<lparr>printed = [], results = []\<rparr>,
              \<lparr>nb_documents = [''a''], nb_lexicon = [''a''], nb_index = [''a'' \<mapsto> [0]],
               nb_td_matrix = \<lparr>nrows = 1, ncols = 1, cells = [[fl_one]]\<rparr>\<rparr>)"
proof -
  let ?nb = "\<lparr>nb_documents = [''a''], nb_lexicon = [''a''], nb_index = [''a'' \<mapsto> [0::nat]],
             nb_td_matrix = \<lparr>nrows = 1, ncols = 1, cells = [[fl_one]]\<rparr>\<rparr>"
  have s: "str_split ''b a'' = [''b'', ''a'']" by code_simp
  have a: "''a'' \<in> dom (nb_index ?nb)" by simp
  have b: "''b'' \<in> set (str_split ''b a'') - dom (nb_index ?nb)" by (simp add: s)
  have r: "run_search sorted_list_of_set ''b a'' ?nb
             = Inr (\<lparr>printed = [], results = []\<rparr>, ?nb)"
    by (simp add: run_search_def search_def get_hits_eq s lookup_def sorted_desc_def Let_def)
  obtain t nb' where nb': "run_get_postings ''b a'' ?nb = Inr (t, nb')"
    "nb_lexicon nb' = nb_lexicon ?nb" "nb_td_matrix nb' = nb_td_matrix ?nb"
    "\<forall>t\<in>dom (nb_index ?nb). nb_index nb' t = nb_index ?nb t"
    "\<forall>t\<in>set (str_split ''b a'') - dom (nb_index ?nb). nb_index nb' t = Some []"
    using query_index_effect [of "''b a''" ?nb sorted_list_of_set] by blast
  have "nb_index nb' ''a'' = Some [0]" using nb'(4) a by simp
  moreover have "nb_index nb' ''b'' = Some []" using nb'(5) b by blast
  ultimately show ?thesis using nb'(1-3) r by simp
qed

subsection \<open>The candidates of a query\<close>

text \<open>
  C6. For every collection and every query, the set \<^verbatim>\<open>get_postings\<close> returns, with the
  index built from the collection or with none, is empty when the query has no token
  and otherwise the intersection, over the tokens of the query, of the postings of the
  token, a token that is no key of the index having none. The search with the
  structures built from the collection raises nothing and returns exactly the members
  of that set; every identifier it returns is the position of a document that has every
  token of the query, and the result is empty when a token of the query is not in the
  lexicon.
\<close>

theorem candidates_intersection:
  assumes "set_order_ok set_iter"
  shows "\<exists>index cands index' out.
           build_inverted_index docs = Inr index
           \<and> get_postings query docs (Some index) = Inr (cands, index')
           \<and> get_postings query docs None = Inr (cands, None)
           \<and> cands = (if str_split query = [] then {}
                      else (\<Inter>p\<in>set (str_split query).
                              set (case index p of None \<Rightarrow> [] | Some ps \<Rightarrow> ps)))
           \<and> search_built set_iter docs query = Inr out
           \<and> set (results out) = cands
           \<and> (\<forall>c\<in>set (results out).
                 c < length docs \<and> (\<forall>p\<in>set (str_split query). p \<in> set (str_split (docs ! c))))
           \<and> ((\<exists>p\<in>set (str_split query). p \<notin> set (build_lexicon docs)) \<longrightarrow> results out = [])"
proof -
  obtain out where out: "search_built set_iter docs query = Inr out"
    "set (results out) = candidates docs query"
    using results_search_built [OF assms] by blast
  have 1: "get_postings query docs (Some (built_index docs))
             = Inr (candidates docs query, Some (touched (built_index docs) (str_split query)))"
    by (simp add: get_postings_Some candidates_def)
  have 2: "get_postings query docs None = Inr (candidates docs query, None)"
    by (simp add: get_postings_None candidates_def built_index_def)
  have 3: "candidates docs query
             = (if str_split query = [] then {}
                else (\<Inter>p\<in>set (str_split query).
                        set (case built_index docs p of None \<Rightarrow> [] | Some ps \<Rightarrow> ps)))"
    by (simp add: candidates_def lookup_def)
  have 4: "\<forall>c\<in>set (results out).
             c < length docs \<and> (\<forall>p\<in>set (str_split query). p \<in> set (str_split (docs ! c)))"
    using out(2) candidate_document by blast
  have 5: "(\<exists>p\<in>set (str_split query). p \<notin> set (build_lexicon docs)) \<longrightarrow> results out = []"
    using out(2) candidates_out_of_vocabulary by fastforce
  show ?thesis
    using build_inverted_index_built [of docs] 1 2 3 4 5 out by blast
qed

theorem candidates_intersection_witness:
  "set_order_ok sorted_list_of_set
   \<and> (\<exists>out. search_built sorted_list_of_set [''a b'', ''b''] ''b'' = Inr out
          \<and> results out = [1, 0]
          \<and> (\<forall>c\<in>set (results out). c < length [''a b'', ''b'']
                \<and> (\<forall>p\<in>set (str_split ''b''). p \<in> set (str_split ([''a b'', ''b''] ! c)))))"
proof -
  obtain out where out: "search_built sorted_list_of_set [''a b'', ''b''] ''b'' = Inr out"
    "\<forall>c\<in>set (results out). c < length [''a b'', ''b'']
       \<and> (\<forall>p\<in>set (str_split ''b''). p \<in> set (str_split ([''a b'', ''b''] ! c)))"
    using candidates_intersection [OF set_order_ok_sorted, of "[''a b'', ''b'']" "''b''"] by blast
  have "results out = [1, 0]" using small_search out(1) by simp
  then show ?thesis using out set_order_ok_sorted by blast
qed

subsection \<open>The results of a search\<close>

text \<open>
  C10. For every collection and every query, the search with the structures built from
  the collection returns a list without duplicates whose elements are exactly the
  members of the candidate set, whatever the texts of the collection and the postings
  lists are.
\<close>

theorem search_results_distinct_candidates:
  assumes "set_order_ok set_iter"
  shows "\<exists>out cands index'.
           search_built set_iter docs query = Inr out
           \<and> built_postings docs query = Inr (cands, index')
           \<and> distinct (results out) \<and> set (results out) = cands"
  using results_search_built [OF assms, of docs query] built_postings_eq [of docs query] by auto

theorem search_results_distinct_candidates_witness:
  "set_order_ok sorted_list_of_set
   \<and> (\<exists>out cands index'. search_built sorted_list_of_set [''a b'', ''b''] ''b'' = Inr out
          \<and> built_postings [''a b'', ''b''] ''b'' = Inr (cands, index')
          \<and> results out = [1, 0] \<and> distinct (results out) \<and> set (results out) = cands)"
proof -
  obtain out cands index' where out:
    "search_built sorted_list_of_set [''a b'', ''b''] ''b'' = Inr out"
    "built_postings [''a b'', ''b''] ''b'' = Inr (cands, index')"
    "distinct (results out)" "set (results out) = cands"
    using search_results_distinct_candidates [OF set_order_ok_sorted, of "[''a b'', ''b'']" "''b''"]
    by blast
  have "results out = [1, 0]" using small_search out(1) by simp
  then show ?thesis using out set_order_ok_sorted by blast
qed

text \<open>
  C5. The claim is that the results are in the order of non-increasing similarity and
  that, of two results of equal similarity, the one with the smaller identifier comes
  first. The code sorts by the similarity alone. In the collection \<open>tie_documents\<close> the
  documents 1 and 8 are the candidates of the query \<^verbatim>\<open>a\<close> and have the same
  similarity; CPython iterates the set of 1 and 8 from 8, and the search returns 8
  before 1.
\<close>

theorem ranked_ties_in_iteration_order:
  "map_sum id results (search_built slot_order tie_documents ''a'') = Inr [8, 1]
   \<and> sim_value tie_documents ''a'' 8 = Some (1592262918131443 / 2 ^ 51)
   \<and> sim_value tie_documents ''a'' 1 = Some (1592262918131443 / 2 ^ 51)"
  using tie_search sim_value_Fin [OF tie_similarity_1] sim_value_Fin [OF tie_similarity_8]
  by (simp add: pow2_def)

text \<open>
  C5, as amended. For every collection and every query, the search with the structures
  built from the collection raises nothing, the similarity of every result is a finite
  number, and the results are in the order of non-increasing similarity; the results of
  one and the same similarity are in the order in which the candidate set is iterated.
\<close>

theorem search_results_ranked:
  assumes "set_order_ok set_iter"
  shows "\<exists>out cands index'.
           search_built set_iter docs query = Inr out
           \<and> built_postings docs query = Inr (cands, index')
           \<and> (\<forall>c\<in>set (results out). \<exists>v. sim_value docs query c = Some v)
           \<and> sorted_wrt (\<lambda>c c'. \<exists>a b. sim_value docs query c = Some a
                                    \<and> sim_value docs query c' = Some b \<and> b \<le> a) (results out)
           \<and> (\<forall>v. filter (\<lambda>c. sim_value docs query c = Some v) (results out)
                    = filter (\<lambda>c. sim_value docs query c = Some v) (set_iter cands))"
proof -
  obtain out where out: "search_built set_iter docs query = Inr out"
    "set (results out) = candidates docs query"
    "sorted_wrt (\<lambda>c c'. \<exists>a b. sim_value docs query c = Some a
                                    \<and> sim_value docs query c' = Some b \<and> b \<le> a) (results out)"
    "\<forall>v. filter (\<lambda>c. sim_value docs query c = Some v) (results out)
           = filter (\<lambda>c. sim_value docs query c = Some v) (set_iter (candidates docs query))"
    using results_search_built [OF assms] by blast
  have "\<forall>c\<in>set (results out). \<exists>v. sim_value docs query c = Some v"
    using out(2) candidate_sim_value by blast
  then show ?thesis
    using out(1,3,4) built_postings_eq [of docs query] by blast
qed

theorem search_results_ranked_witness:
  "set_order_ok slot_order
   \<and> (\<exists>out. search_built slot_order tie_documents ''a'' = Inr out
          \<and> results out = [8, 1]
          \<and> sorted_wrt (\<lambda>c c'. \<exists>a b. sim_value tie_documents ''a'' c = Some a
                                    \<and> sim_value tie_documents ''a'' c' = Some b \<and> b \<le> a)
               (results out)
          \<and> filter (\<lambda>c. sim_value tie_documents ''a'' c = Some (1592262918131443 / 2 ^ 51))
               (results out) = [8, 1])"
proof -
  obtain out where out: "search_built slot_order tie_documents ''a'' = Inr out"
    "sorted_wrt (\<lambda>c c'. \<exists>a b. sim_value tie_documents ''a'' c = Some a
                          \<and> sim_value tie_documents ''a'' c' = Some b \<and> b \<le> a) (results out)"
    using search_results_ranked [OF set_order_ok_slot, of tie_documents "''a''"] by blast
  have r: "results out = [8, 1]" using tie_search out(1) by simp
  have "filter (\<lambda>c. sim_value tie_documents ''a'' c = Some (1592262918131443 / 2 ^ 51))
               (results out) = [8, 1]"
    unfolding r
    using sim_value_Fin [OF tie_similarity_1] sim_value_Fin [OF tie_similarity_8]
    by (simp add: pow2_def)
  then show ?thesis using out r set_order_ok_slot by blast
qed

subsection \<open>The reference corpus\<close>

text \<open>
  C4. The claim is that the query \<^verbatim>\<open>cat very\<close> on the reference corpus has the
  candidates 0, 1 and 3, returns \<open>[3, 1, 0]\<close>, and that the similarity of the document 3
  is 1 exactly. The norms of the two vectors are the double nearest to the square root
  of 2, their product rounds to the double next above 2, \<open>2 + 2 ^ -51\<close>, and 2 divided by
  it rounds to \<open>1 - 2 ^ -52\<close>, a double less than 1, which Python 2 prints as \<^verbatim>\<open>1.0\<close>.
\<close>

theorem reference_similarity_below_one:
  "sim_value documents ''cat very'' 3 \<noteq> Some 1"
  using reference_values(3) by simp

text \<open>
  C4, as amended. On the reference corpus the query \<^verbatim>\<open>cat very\<close> has the candidates 0, 1
  and 3 and the search returns \<open>[3, 1, 0]\<close>, in whatever order the set is iterated; the
  similarity of the document 3 is the double \<open>1 - 2 ^ -52\<close>, not 1.
\<close>

theorem reference_search_result:
  assumes "set_order_ok set_iter"
  shows "\<exists>out index'.
           search_built set_iter documents ''cat very'' = Inr out
           \<and> built_postings documents ''cat very'' = Inr ({0, 1, 3}, index')
           \<and> results out = [3, 1, 0]
           \<and> sim_value documents ''cat very'' 3 = Some (1 - 1 / 2 ^ 52)"
proof -
  have c: "candidates documents ''cat very'' = {0, 1, 3}"
    using reference_candidates by (simp add: built_postings_eq)
  obtain out where out: "search_built set_iter documents ''cat very'' = Inr out"
    "set (results out) = candidates documents ''cat very''" "distinct (results out)"
    "sorted_wrt (\<lambda>c c'. \<exists>a b. sim_value documents ''cat very'' c = Some a
                          \<and> sim_value documents ''cat very'' c' = Some b \<and> b \<le> a) (results out)"
    using results_search_built [OF assms] by blast
  have "results out = [3, 1, 0]"
    using out(2-4) c by (intro reference_results) simp_all
  then show ?thesis
    using out(1) c built_postings_eq [of documents "''cat very''"] reference_values(3) by simp
qed

theorem reference_search_result_witness:
  "set_order_ok slot_order
   \<and> map_sum id results (search_built slot_order documents ''cat very'') = Inr [3, 1, 0]"
  using reference_search_result [OF set_order_ok_slot] set_order_ok_slot by auto

end
